theory Spec2Isabelle
  imports Complex_Main
begin

section \<open>Arrays\<close>

text \<open>
  A numpy array is its shape together with its elements in row-major (C) order.
  Every array numpy builds holds as many elements as its shape says (\<open>wf_array\<close>).
  Array elements are of any type with a zero, an addition and a multiplication. No law
  of arithmetic is assumed of them: the addition of floating point numbers is not
  associative, so the order in which a sum is taken is part of what the model says.
  The rounding itself is not modelled.
\<close>

record 'a ndarray =
  shape :: "nat list"
  flat :: "'a list"

definition ndim :: "'a ndarray \<Rightarrow> nat" where
  "ndim a = length (shape a)"

definition wf_array :: "'a ndarray \<Rightarrow> bool" where
  "wf_array a = (length (flat a) = prod_list (shape a))"

text \<open>
  The exceptions of the code: \<open>TypeError\<close> (iteration over a 0-d array),
  \<open>ValueError\<close> (\<open>np.array\<close> on arrays of different shapes, a reduction over an
  empty axis), \<open>IndexError\<close> (an index out of range), and \<open>InvalidInputError\<close>, the
  error the specification gives to a convolution of arrays of the wrong rank.
\<close>

datatype error = TypeError | ValueError | IndexError | InvalidInputError

text \<open>The argument \<open>method\<close> of the convolvers, one of \<open>'astropy'\<close> and \<open>'scipy'\<close>.\<close>

datatype conv_method = Astropy | Scipy

text \<open>\<open>slice0 a k\<close> is \<open>a[k]\<close> for an array of shape \<open>n # s\<close> and \<open>k < n\<close>.\<close>

definition slice0 :: "'a ndarray \<Rightarrow> nat \<Rightarrow> 'a ndarray" where
  "slice0 a k =
     \<lparr>shape = tl (shape a),
      flat = take (prod_list (tl (shape a))) (drop (k * prod_list (tl (shape a))) (flat a))\<rparr>"

text \<open>\<open>a[k]\<close> with a non-negative index: \<open>IndexError\<close> on a 0-d array and out of range.\<close>

definition getitem :: "'a ndarray \<Rightarrow> nat \<Rightarrow> error + 'a ndarray" where
  "getitem a k =
     (case shape a of
        [] \<Rightarrow> Inl IndexError
      | n # s \<Rightarrow> if k < n then Inr (slice0 a k) else Inl IndexError)"

text \<open>\<open>for x in a\<close>: the sub-arrays along the leading axis, in order; a 0-d array
  cannot be iterated.\<close>

definition iter :: "'a ndarray \<Rightarrow> error + 'a ndarray list" where
  "iter a =
     (case shape a of
        [] \<Rightarrow> Inl TypeError
      | n # s \<Rightarrow> Inr (map (slice0 a) [0..<n]))"

text \<open>\<open>[f(x) for x in xs]\<close> where \<open>f\<close> may raise: the first exception ends the
  comprehension.\<close>

fun list_comp :: "('a \<Rightarrow> error + 'b) \<Rightarrow> 'a list \<Rightarrow> error + 'b list" where
  "list_comp f [] = Inr []"
| "list_comp f (x # xs) =
     (case f x of
        Inl e \<Rightarrow> Inl e
      | Inr y \<Rightarrow> (case list_comp f xs of Inl e \<Rightarrow> Inl e | Inr ys \<Rightarrow> Inr (y # ys)))"

text \<open>\<open>np.array(xs)\<close> for a Python list of arrays: the empty list gives the empty array of
  shape \<open>(0,)\<close>, arrays of one shape are stacked along a new leading axis, and arrays of
  different shapes are refused.\<close>

definition np_array :: "'a ndarray list \<Rightarrow> error + 'a ndarray" where
  "np_array xs =
     (case xs of
        [] \<Rightarrow> Inr \<lparr>shape = [0], flat = []\<rparr>
      | x # _ \<Rightarrow>
          if list_all (\<lambda>y. shape y = shape x) xs
          then Inr \<lparr>shape = length xs # shape x, flat = concat (map flat xs)\<rparr>
          else Inl ValueError)"

text \<open>\<open>np.sum(xs, axis=0)\<close> for a Python list of arrays: the list is made an array, and
  its slices along the leading axis are added element by element, in index order.
  The sum of no slices is zero.\<close>

definition add_arrays :: "'a::plus list \<Rightarrow> 'a list \<Rightarrow> 'a list" where
  "add_arrays acc x = map2 (+) acc x"

definition np_sum_axis0 :: "'a::{zero,plus} ndarray list \<Rightarrow> error + 'a ndarray" where
  "np_sum_axis0 xs =
     (case np_array xs of
        Inl e \<Rightarrow> Inl e
      | Inr a \<Rightarrow>
          (case shape a of
             [] \<Rightarrow> Inl ValueError
           | n # s \<Rightarrow>
               Inr \<lparr>shape = s,
                    flat = foldl add_arrays (replicate (prod_list s) 0)
                             (map (\<lambda>k. flat (slice0 a k)) [0..<n])\<rparr>))"

section \<open>Convolution and rotation\<close>

text \<open>\<open>at2 a i j\<close> is \<open>a[i, j]\<close> for a 2D array \<open>a\<close>.\<close>

definition at2 :: "'a ndarray \<Rightarrow> nat \<Rightarrow> nat \<Rightarrow> 'a" where
  "at2 a i j = flat a ! (i * (shape a ! 1) + j)"

text \<open>
  Modelled from the spec: \<open>convolve\<close> of \<open>modopt.math.convolve\<close>, which is not part
  of the sources. The specification asks of either backend the linear convolution of a
  2D image with a 2D kernel, zero beyond the boundaries, cropped and centred to the
  shape of the image (``same'' mode), and an invalid-input error for arrays of another
  rank. The full convolution of an \<open>H \<times> W\<close> image with an \<open>Fh \<times> Fw\<close> kernel has
  \<open>full[p, q] = \<Sum> a b. data[a, b] * kernel[p - a, q - b]\<close>; the centred crop starts at
  \<open>((Fh - 1) div 2, (Fw - 1) div 2)\<close>. The sum is taken row by row, in index order.
\<close>

definition same_at :: "'a::{zero,plus,times} ndarray \<Rightarrow> 'a ndarray \<Rightarrow> nat \<Rightarrow> nat \<Rightarrow> 'a" where
  "same_at data kern i j =
     (let H = shape data ! 0; W = shape data ! 1;
          Fh = shape kern ! 0; Fw = shape kern ! 1;
          p = i + (Fh - 1) div 2; q = j + (Fw - 1) div 2
      in foldl (+) 0 (map (\<lambda>a. foldl (+) 0 (map (\<lambda>b.
           if a \<le> p \<and> p - a < Fh \<and> b \<le> q \<and> q - b < Fw
           then at2 data a b * at2 kern (p - a) (q - b) else 0) [0..<W])) [0..<H]))"

definition convolve_same :: "'a::{zero,plus,times} ndarray \<Rightarrow> 'a ndarray \<Rightarrow> 'a ndarray" where
  "convolve_same data kern =
     \<lparr>shape = shape data,
      flat = concat (map (\<lambda>i. map (\<lambda>j. same_at data kern i j) [0..<shape data ! 1])
                       [0..<shape data ! 0])\<rparr>"

definition convolve :: "'a::{zero,plus,times} ndarray \<Rightarrow> 'a ndarray \<Rightarrow> conv_method \<Rightarrow> error + 'a ndarray" where
  "convolve data kern meth =
     (if ndim data = 2 \<and> ndim kern = 2
      then (case meth of
              Astropy \<Rightarrow> Inr (convolve_same data kern)
            | Scipy \<Rightarrow> Inr (convolve_same data kern))
      else Inl InvalidInputError)"

text \<open>
  Modelled from the spec: \<open>rotate_stack\<close> of \<open>modopt.base.np_adjust\<close>, which is not
  part of the sources. The specification has it produce a point-reflected copy of each
  filter of the bank, reversed along both spatial axes, in the order of the bank.
\<close>

definition rot180 :: "'a ndarray \<Rightarrow> 'a ndarray" where
  "rot180 f =
     \<lparr>shape = shape f,
      flat = concat (rev (map (\<lambda>i. rev (flat (slice0 f i))) [0..<shape f ! 0]))\<rparr>"

definition rotate :: "'a ndarray \<Rightarrow> error + 'a ndarray" where
  "rotate f = (if ndim f = 2 then Inr (rot180 f) else Inl InvalidInputError)"

definition rotate_stack :: "'a ndarray \<Rightarrow> error + 'a ndarray" where
  "rotate_stack filters =
     (case iter filters of
        Inl e \<Rightarrow> Inl e
      | Inr fs \<Rightarrow> (case list_comp rotate fs of Inl e \<Rightarrow> Inl e | Inr rs \<Rightarrow> np_array rs))"

section \<open>The filter convolvers\<close>

text \<open>\<open>filter_convolve\<close>: with \<open>filter_rot\<close> the filters are rotated, the slices of
  \<open>data\<close> are paired with them by \<open>zip\<close> and the convolutions are summed; without, the
  convolutions of \<open>data\<close> with each filter are stacked.\<close>

definition filter_convolve ::
  "'a::{zero,plus,times} ndarray \<Rightarrow> 'a ndarray \<Rightarrow> bool \<Rightarrow> conv_method \<Rightarrow> error + 'a ndarray" where
  "filter_convolve data filters filter_rot meth =
     (if filter_rot then
        (case rotate_stack filters of
           Inl e \<Rightarrow> Inl e
         | Inr rotated \<Rightarrow>
             (case iter data of
                Inl e \<Rightarrow> Inl e
              | Inr coefs \<Rightarrow>
                  (case iter rotated of
                     Inl e \<Rightarrow> Inl e
                   | Inr fs \<Rightarrow>
                       (case list_comp (\<lambda>(coef, f). convolve coef f meth) (zip coefs fs) of
                          Inl e \<Rightarrow> Inl e
                        | Inr rs \<Rightarrow> np_sum_axis0 rs))))
      else
        (case iter filters of
           Inl e \<Rightarrow> Inl e
         | Inr fs \<Rightarrow>
             (case list_comp (\<lambda>f. convolve data f meth) fs of
                Inl e \<Rightarrow> Inl e
              | Inr rs \<Rightarrow> np_array rs)))"

definition filter_convolve_stack ::
  "'a::{zero,plus,times} ndarray \<Rightarrow> 'a ndarray \<Rightarrow> bool \<Rightarrow> conv_method \<Rightarrow> error + 'a ndarray" where
  "filter_convolve_stack data filters filter_rot meth =
     (case iter data of
        Inl e \<Rightarrow> Inl e
      | Inr xs \<Rightarrow>
          (case list_comp (\<lambda>x. filter_convolve x filters filter_rot meth) xs of
             Inl e \<Rightarrow> Inl e
           | Inr rs \<Rightarrow> np_array rs))"

text \<open>\<open>np.arange(n).reshape(s).astype(float)\<close> with \<open>n\<close> the number of elements of the
  shape \<open>s\<close>, as the examples of the docstrings use it.\<close>

definition arange :: "nat list \<Rightarrow> 'a::semiring_1 ndarray" where
  "arange s = \<lparr>shape = s, flat = map of_nat [0..<prod_list s]\<rparr>"

section \<open>Trimming a filter\<close>

text \<open>\<open>np.where(a != 0)\<close>: one index list for each axis, holding the coordinates of the
  non-zero elements in row-major order. A 0-d array is read as the 1-D array of its
  element.\<close>

definition np_where_nonzero :: "'a::zero ndarray \<Rightarrow> nat list list" where
  "np_where_nonzero a =
     (let s = (if shape a = [] then [1] else shape a);
          nz = filter (\<lambda>p. flat a ! p \<noteq> 0) [0..<length (flat a)]
      in map (\<lambda>t. map (\<lambda>p. (p div prod_list (drop (Suc t) s)) mod (s ! t)) nz) [0..<length s])"

text \<open>\<open>np.min\<close> and \<open>np.max\<close> of a 1-D array: a \<open>ValueError\<close> when it is empty.
  Along the last axis of a 2D array they reduce every row.\<close>

definition np_min :: "nat list \<Rightarrow> error + nat" where
  "np_min xs = (case xs of [] \<Rightarrow> Inl ValueError | x # xs' \<Rightarrow> Inr (fold min xs' x))"

definition np_max :: "nat list \<Rightarrow> error + nat" where
  "np_max xs = (case xs of [] \<Rightarrow> Inl ValueError | x # xs' \<Rightarrow> Inr (fold max xs' x))"

text \<open>\<open>a[r0:r1, c0:c1]\<close> for an array of two or more axes and non-negative bounds: a
  bound beyond the axis is clipped to it.\<close>

definition slice2 :: "'a ndarray \<Rightarrow> nat \<Rightarrow> nat \<Rightarrow> nat \<Rightarrow> nat \<Rightarrow> 'a ndarray" where
  "slice2 a r0 r1 c0 c1 =
     (let n0 = shape a ! 0; n1 = shape a ! 1; rest = drop 2 (shape a);
          rs = [r0..<min r1 n0]; cs = [c0..<min c1 n1]
      in \<lparr>shape = length rs # length cs # rest,
          flat = concat (map (\<lambda>i. concat (map (\<lambda>j.
                   take (prod_list rest) (drop ((i * n1 + j) * prod_list rest) (flat a))) cs)) rs)\<rparr>)"

text \<open>\<open>_trim_filter\<close>: the reductions raise on a filter without a non-zero entry, and
  \<open>min_idx[1]\<close> raises on an array of one axis.\<close>

definition trim_filter :: "'a::zero ndarray \<Rightarrow> error + 'a ndarray" where
  "trim_filter filter_array =
     (let non_zero_indices = np_where_nonzero filter_array
      in case list_comp np_min non_zero_indices of
           Inl e \<Rightarrow> Inl e
         | Inr min_idx \<Rightarrow>
             (case list_comp np_max non_zero_indices of
                Inl e \<Rightarrow> Inl e
              | Inr max_idx \<Rightarrow>
                  if length min_idx < 2 then Inl IndexError
                  else Inr (slice2 filter_array (min_idx ! 0) (max_idx ! 0 + 1)
                                               (min_idx ! 1) (max_idx ! 1 + 1))))"

section \<open>Lists and arrays: auxiliary facts\<close>

lemma list_comp_Inr_map: "list_comp f xs = Inr ys \<Longrightarrow> map f xs = map Inr ys"
  by (induction xs arbitrary: ys) (auto split: sum.splits)

lemma list_comp_map_Inr: "map f xs = map Inr ys \<Longrightarrow> list_comp f xs = Inr ys"
proof (induction xs arbitrary: ys)
  case Nil
  then show ?case by simp
next
  case (Cons x xs)
  then obtain y ys' where ys: "ys = y # ys'" by (cases ys) auto
  with Cons.prems have "f x = Inr y" and "map f xs = map Inr ys'" by simp_all
  with Cons.IH [of ys'] ys show ?case by simp
qed

lemma list_comp_Inr_iff: "list_comp f xs = Inr ys \<longleftrightarrow> map f xs = map Inr ys"
  using list_comp_Inr_map list_comp_map_Inr by blast

lemma list_comp_Inl: "list_comp f xs = Inl e \<Longrightarrow> \<exists>x\<in>set xs. f x = Inl e"
  by (induction xs) (auto split: sum.splits)

lemma list_comp_total: "(\<And>x. x \<in> set xs \<Longrightarrow> f x = Inr (g x)) \<Longrightarrow> list_comp f xs = Inr (map g xs)"
  by (simp add: list_comp_Inr_iff)

lemma list_comp_first_fails: "f x = Inl e \<Longrightarrow> list_comp f (x # xs) = Inl e"
  by simp

lemma take_drop_concat:
  assumes "\<And>y. y \<in> set yss \<Longrightarrow> length y = n" and "k < length yss"
  shows "take n (drop (k * n) (concat yss)) = yss ! k"
  using assms
proof (induction yss arbitrary: k)
  case Nil
  then show ?case by simp
next
  case (Cons y yss)
  show ?case
  proof (cases k)
    case 0
    with Cons.prems show ?thesis by simp
  next
    case (Suc k')
    with Cons show ?thesis by simp
  qed
qed

lemma slice0_stacked:
  assumes "\<And>y. y \<in> set xs \<Longrightarrow> shape y = s \<and> length (flat y) = prod_list s" and "k < length xs"
  shows "slice0 \<lparr>shape = length xs # s, flat = concat (map flat xs)\<rparr> k = xs ! k"
proof -
  have "take (prod_list s) (drop (k * prod_list s) (concat (map flat xs))) = map flat xs ! k"
    using assms by (intro take_drop_concat) auto
  then show ?thesis using assms by (simp add: slice0_def)
qed

lemma concat_grid_nth:
  assumes "i < H" and "j < W"
  shows "concat (map (\<lambda>i. map (g i) [0..<W]) [0..<H]) ! (i * W + j) = g i j"
  using assms
proof (induction H)
  case 0
  then show ?case by simp
next
  case (Suc H)
  have len: "length (concat (map (\<lambda>i. map (g i) [0..<W]) [0..<H])) = H * W"
    by (induction H) simp_all
  show ?case
  proof (cases "i < H")
    case True
    then have "Suc i * W \<le> H * W" by (intro mult_le_mono1) simp
    moreover have "i * W + j < Suc i * W" using Suc.prems(2) by simp
    ultimately have "i * W + j < H * W" by linarith
    with True Suc show ?thesis by (simp add: nth_append len)
  next
    case False
    with Suc.prems have "i = H" by simp
    with Suc.prems show ?thesis by (simp add: nth_append len)
  qed
qed

lemma concat_grid_length:
  "length (concat (map (\<lambda>i. map (g i) [0..<W]) [0..<H])) = H * W"
  by (induction H) simp_all

lemma convolve_2d: "ndim data = 2 \<Longrightarrow> ndim kern = 2 \<Longrightarrow> convolve data kern m = Inr (convolve_same data kern)"
  by (cases m) (simp_all add: convolve_def)

lemma convolve_not_2d: "ndim data \<noteq> 2 \<or> ndim kern \<noteq> 2 \<Longrightarrow> convolve data kern m = Inl InvalidInputError"
  by (auto simp: convolve_def)

lemma convolve_same_shape: "shape (convolve_same data kern) = shape data"
  by (simp add: convolve_same_def)

lemma convolve_same_length:
  "ndim data = 2 \<Longrightarrow> length (flat (convolve_same data kern)) = prod_list (shape data)"
proof -
  assume "ndim data = 2"
  then obtain H W where s: "shape data = [H, W]"
    by (cases "shape data"; cases "tl (shape data)"; cases "tl (tl (shape data))") (auto simp: ndim_def)
  then show ?thesis by (simp add: convolve_same_def concat_grid_length)
qed

lemma convolve_same_at2:
  assumes "shape data = [H, W]" and "i < H" and "j < W"
  shows "at2 (convolve_same data kern) i j = same_at data kern i j"
  using assms by (simp add: at2_def convolve_same_def concat_grid_nth)

lemma shape_slice0: "shape (slice0 a k) = tl (shape a)"
  by (simp add: slice0_def)

lemma iter_Cons: "shape a = n # s \<Longrightarrow> iter a = Inr (map (slice0 a) [0..<n])"
  by (simp add: iter_def)

lemma np_array_same_shape:
  assumes "xs \<noteq> []" and "\<And>y. y \<in> set xs \<Longrightarrow> shape y = s"
  shows "np_array xs = Inr \<lparr>shape = length xs # s, flat = concat (map flat xs)\<rparr>"
  using assms by (cases xs) (auto simp: np_array_def list_all_iff)

lemma concat_nth_uniform:
  assumes "\<And>r. r \<in> set rows \<Longrightarrow> length r = W" and "i < length rows" and "j < W"
  shows "concat rows ! (i * W + j) = rows ! i ! j"
  using assms
proof (induction rows arbitrary: i)
  case Nil
  then show ?case by simp
next
  case (Cons r rows)
  show ?case
  proof (cases i)
    case 0
    with Cons.prems show ?thesis by (simp add: nth_append)
  next
    case (Suc i')
    with Cons show ?thesis by (simp add: nth_append)
  qed
qed

lemma concat_length_uniform:
  "(\<And>r. r \<in> set rows \<Longrightarrow> length r = W) \<Longrightarrow> length (concat rows) = length rows * W"
  by (induction rows) simp_all

lemma slice0_length:
  assumes "wf_array a" and "shape a = n # s" and "k < n"
  shows "length (flat (slice0 a k)) = prod_list s"
proof -
  have "Suc k * prod_list s \<le> n * prod_list s"
    using assms(3) by (intro mult_le_mono1) simp
  then have "prod_list s \<le> n * prod_list s - k * prod_list s" by simp
  then show ?thesis using assms by (simp add: slice0_def wf_array_def)
qed

lemma slice0_wf:
  assumes "wf_array a" and "shape a = n # s" and "k < n"
  shows "wf_array (slice0 a k)"
  using slice0_length [OF assms] assms(2) by (simp add: wf_array_def shape_slice0)

lemma slice0_nth:
  assumes "wf_array a" and "shape a = n # s" and "k < n" and "p < prod_list s"
  shows "flat (slice0 a k) ! p = flat a ! (k * prod_list s + p)"
proof -
  have "Suc k * prod_list s \<le> n * prod_list s"
    using assms(3) by (intro mult_le_mono1) simp
  then have "k * prod_list s + p < length (flat a)"
    using assms by (simp add: wf_array_def)
  then show ?thesis using assms by (simp add: slice0_def)
qed

lemma shape_rot180: "shape (rot180 f) = shape f"
  by (simp add: rot180_def)

lemma rot180_length:
  assumes "wf_array f" and "shape f = [Fh, Fw]"
  shows "length (flat (rot180 f)) = Fh * Fw"
proof -
  have "length (concat (rev (map (\<lambda>i. rev (flat (slice0 f i))) [0..<Fh]))) =
        length (rev (map (\<lambda>i. rev (flat (slice0 f i))) [0..<Fh])) * Fw"
    using slice0_length [OF assms(1) assms(2)]
    by (intro concat_length_uniform) auto
  then show ?thesis using assms(2) by (simp add: rot180_def)
qed

lemma rot180_at2:
  assumes "wf_array f" and "shape f = [Fh, Fw]" and "i < Fh" and "j < Fw"
  shows "at2 (rot180 f) i j = at2 f (Fh - 1 - i) (Fw - 1 - j)"
proof -
  let ?rows = "rev (map (\<lambda>i. rev (flat (slice0 f i))) [0..<Fh])"
  have len: "length (flat (slice0 f k)) = Fw" if "k < Fh" for k
    using slice0_length [OF assms(1) assms(2) that] by simp
  have "concat ?rows ! (i * Fw + j) = ?rows ! i ! j"
    using assms(3,4) len by (intro concat_nth_uniform) auto
  also have "?rows ! i = rev (flat (slice0 f (Fh - 1 - i)))"
    using assms(3) by (simp add: rev_nth)
  also have "\<dots> ! j = flat (slice0 f (Fh - 1 - i)) ! (Fw - 1 - j)"
    using assms(3,4) len [of "Fh - 1 - i"] by (simp add: rev_nth)
  also have "\<dots> = flat f ! ((Fh - 1 - i) * Fw + (Fw - 1 - j))"
    using slice0_nth [OF assms(1) assms(2), of "Fh - 1 - i" "Fw - 1 - j"] assms(3,4) by simp
  finally show ?thesis using assms(2) by (simp add: at2_def rot180_def)
qed

lemma rotate_2d: "ndim f = 2 \<Longrightarrow> rotate f = Inr (rot180 f)"
  by (simp add: rotate_def)

lemma np_array_Nil: "np_array [] = Inr \<lparr>shape = [0], flat = []\<rparr>"
  by (simp add: np_array_def)

lemma iter_stacked:
  assumes "\<And>y. y \<in> set xs \<Longrightarrow> shape y = s \<and> length (flat y) = prod_list s"
  shows "iter \<lparr>shape = length xs # s, flat = concat (map flat xs)\<rparr> = Inr xs"
proof -
  have "map (slice0 \<lparr>shape = length xs # s, flat = concat (map flat xs)\<rparr>) [0..<length xs] = xs"
    using slice0_stacked [of xs s] assms by (intro nth_equalityI) auto
  then show ?thesis by (simp add: iter_def)
qed

lemma rotate_stack_3d:
  assumes "wf_array filters" and "shape filters = [K, Fh, Fw]"
  shows "\<exists>rotated. rotate_stack filters = Inr rotated \<and>
           iter rotated = Inr (map (\<lambda>k. rot180 (slice0 filters k)) [0..<K])"
proof -
  let ?rs = "map (\<lambda>k. rot180 (slice0 filters k)) [0..<K]"
  have f2: "ndim (slice0 filters k) = 2" for k
    using assms(2) by (simp add: ndim_def shape_slice0)
  have lc: "list_comp rotate (map (slice0 filters) [0..<K]) = Inr (map rot180 (map (slice0 filters) [0..<K]))"
    by (rule list_comp_total) (auto simp: rotate_2d f2)
  have el: "shape y = [Fh, Fw] \<and> length (flat y) = prod_list [Fh, Fw]" if "y \<in> set ?rs" for y
  proof -
    from that obtain k where k: "k < K" "y = rot180 (slice0 filters k)" by auto
    have "wf_array (slice0 filters k)" using slice0_wf [OF assms k(1)] .
    moreover have "shape (slice0 filters k) = [Fh, Fw]" using assms(2) by (simp add: shape_slice0)
    ultimately show ?thesis using k(2) rot180_length [of "slice0 filters k" Fh Fw]
      by (simp add: shape_rot180)
  qed
  show ?thesis
  proof (cases "K = 0")
    case True
    have "iter \<lparr>shape = [0], flat = []\<rparr> = Inr ([] :: 'a ndarray list)"
      by (simp add: iter_def)
    with True show ?thesis
      by (simp add: rotate_stack_def iter_Cons [OF assms(2)] np_array_Nil)
  next
    case False
    then have ne: "?rs \<noteq> []" by simp
    have "np_array ?rs = Inr \<lparr>shape = length ?rs # [Fh, Fw], flat = concat (map flat ?rs)\<rparr>"
      using el by (intro np_array_same_shape [OF ne]) blast
    moreover have "iter \<lparr>shape = length ?rs # [Fh, Fw], flat = concat (map flat ?rs)\<rparr> = Inr ?rs"
      using el by (intro iter_stacked) blast
    ultimately show ?thesis
      by (simp add: rotate_stack_def iter_Cons [OF assms(2)] lc comp_def)
  qed
qed

lemma np_sum_axis0_Nil: "np_sum_axis0 [] = Inr \<lparr>shape = [], flat = [0]\<rparr>"
  by (simp add: np_sum_axis0_def np_array_Nil)

lemma np_sum_axis0_same_shape:
  assumes "xs \<noteq> []" and "\<And>y. y \<in> set xs \<Longrightarrow> shape y = s \<and> length (flat y) = prod_list s"
  shows "np_sum_axis0 xs =
           Inr \<lparr>shape = s, flat = foldl add_arrays (replicate (prod_list s) 0) (map flat xs)\<rparr>"
proof -
  let ?a = "\<lparr>shape = length xs # s, flat = concat (map flat xs)\<rparr>"
  have "np_array xs = Inr ?a"
    using assms by (intro np_array_same_shape) auto
  moreover have "map (\<lambda>k. flat (slice0 ?a k)) [0..<length xs] = map flat xs"
    using slice0_stacked [of xs s] assms(2) by (intro nth_equalityI) auto
  ultimately show ?thesis by (simp add: np_sum_axis0_def)
qed

lemma zip_map_upt:
  "zip (map f [0..<d]) (map g [0..<K]) = map (\<lambda>k. (f k, g k)) [0..<min d K]"
  by (intro nth_equalityI) auto

lemma filter_convolve_rot_general:
  assumes "wf_array filters" and "shape data = [d, H, W]" and "shape filters = [K, Fh, Fw]"
  shows "filter_convolve data filters True meth =
           Inr \<lparr>shape = (if min d K = 0 then [] else [H, W]),
                flat = foldl add_arrays (replicate (if min d K = 0 then 1 else H * W) 0)
                         (map (\<lambda>k. flat (convolve_same (slice0 data k) (rot180 (slice0 filters k))))
                            [0..<min d K])\<rparr>"
proof -
  let ?c = "\<lambda>k. convolve_same (slice0 data k) (rot180 (slice0 filters k))"
  let ?cs = "map ?c [0..<min d K]"
  obtain rotated where rot: "rotate_stack filters = Inr rotated"
    "iter rotated = Inr (map (\<lambda>k. rot180 (slice0 filters k)) [0..<K])"
    using rotate_stack_3d [OF assms(1,3)] by blast
  have d2: "ndim (slice0 data k) = 2" for k using assms(2) by (simp add: ndim_def shape_slice0)
  have f2: "ndim (rot180 (slice0 filters k)) = 2" for k
    using assms(3) by (simp add: ndim_def shape_slice0 shape_rot180)
  have lc: "list_comp (\<lambda>(coef, f). convolve coef f meth)
              (map (\<lambda>k. (slice0 data k, rot180 (slice0 filters k))) [0..<min d K])
            = Inr (map (\<lambda>(coef, f). convolve_same coef f)
                 (map (\<lambda>k. (slice0 data k, rot180 (slice0 filters k))) [0..<min d K]))"
    by (rule list_comp_total) (auto simp: convolve_2d d2 f2)
  have res: "filter_convolve data filters True meth = np_sum_axis0 ?cs"
    by (simp add: filter_convolve_def rot iter_Cons [OF assms(2)] zip_map_upt lc comp_def)
  show ?thesis
  proof (cases "min d K = 0")
    case True
    then show ?thesis using res by (simp add: np_sum_axis0_Nil)
  next
    case False
    then have ne: "?cs \<noteq> []" by simp
    have "np_sum_axis0 ?cs =
           Inr \<lparr>shape = [H, W], flat = foldl add_arrays (replicate (prod_list [H, W]) 0) (map flat ?cs)\<rparr>"
      using assms(2) d2
      by (intro np_sum_axis0_same_shape [OF ne])
         (auto simp: convolve_same_shape convolve_same_length shape_slice0)
    then show ?thesis unfolding res if_not_P [OF False] by (simp add: comp_def)
  qed
qed

text \<open>What a successful call of \<open>filter_convolve\<close> returns: a well-formed array whose
  shape depends on \<open>data\<close> through its shape only.\<close>

lemma convolve_Inr: "convolve x f meth = Inr y \<Longrightarrow> ndim x = 2 \<and> y = convolve_same x f"
  by (cases meth) (auto simp: convolve_def split: if_splits)

lemma iter_Inr: "iter a = Inr xs \<Longrightarrow> xs = map (slice0 a) [0..<hd (shape a)] \<and> shape a \<noteq> []"
  by (auto simp: iter_def split: list.splits)

lemma list_comp_Inr_nth:
  assumes "list_comp f xs = Inr ys"
  shows "length ys = length xs" and "\<And>k. k < length xs \<Longrightarrow> f (xs ! k) = Inr (ys ! k)"
proof -
  have m: "map f xs = map Inr ys" using assms by (rule list_comp_Inr_map)
  then show len: "length ys = length xs" by (rule map_eq_imp_length_eq [symmetric])
  fix k assume k: "k < length xs"
  from m have "map f xs ! k = map Inr ys ! k" by (rule arg_cong [where f = "\<lambda>l. l ! k"])
  then show "f (xs ! k) = Inr (ys ! k)" using k len by simp
qed

lemma foldl_add_arrays_length:
  "(\<And>y. y \<in> set ys \<Longrightarrow> length y = n) \<Longrightarrow> length acc = n \<Longrightarrow> length (foldl add_arrays acc ys) = n"
  by (induction ys arbitrary: acc) (simp_all add: add_arrays_def)

lemma np_array_uniform:
  assumes "\<And>y. y \<in> set xs \<Longrightarrow> shape y = s \<and> length (flat y) = prod_list s"
  shows "\<exists>r. np_array xs = Inr r \<and> wf_array r \<and> shape r = (if xs = [] then [0] else length xs # s)"
proof (cases "xs = []")
  case True
  then show ?thesis by (simp add: np_array_Nil wf_array_def)
next
  case False
  have "np_array xs = Inr \<lparr>shape = length xs # s, flat = concat (map flat xs)\<rparr>"
    using assms by (intro np_array_same_shape [OF False]) blast
  moreover have "length (concat (map flat xs)) = length (map flat xs) * prod_list s"
    using assms by (intro concat_length_uniform) auto
  ultimately show ?thesis using False by (simp add: wf_array_def)
qed

lemma filter_convolve_plain_Inr:
  assumes "filter_convolve x filters False meth = Inr r"
  shows "wf_array r \<and>
         shape r = (if hd (shape filters) = 0 then [0] else hd (shape filters) # shape x)"
proof -
  from assms obtain fs rs where fs: "iter filters = Inr fs"
    and rs: "list_comp (\<lambda>f. convolve x f meth) fs = Inr rs" and r: "np_array rs = Inr r"
    by (auto simp: filter_convolve_def split: sum.splits)
  have lfs: "length fs = hd (shape filters)" using iter_Inr [OF fs] by simp
  have len: "length rs = length fs" using list_comp_Inr_nth(1) [OF rs] .
  have el: "shape y = shape x \<and> length (flat y) = prod_list (shape x)" if "y \<in> set rs" for y
  proof -
    from that obtain k where k: "k < length rs" "y = rs ! k" by (auto simp: in_set_conv_nth)
    then have "convolve x (fs ! k) meth = Inr y"
      using list_comp_Inr_nth(2) [OF rs, of k] len by simp
    then have "ndim x = 2" "y = convolve_same x (fs ! k)" using convolve_Inr by blast+
    then show ?thesis by (simp add: convolve_same_shape convolve_same_length)
  qed
  obtain r' where "np_array rs = Inr r'" "wf_array r'"
    "shape r' = (if rs = [] then [0] else length rs # shape x)"
    using np_array_uniform [of rs "shape x"] el by blast
  with r len lfs show ?thesis by auto
qed

lemma filter_convolve_rot_Inr:
  assumes "filter_convolve x filters True meth = Inr r"
  shows "\<exists>rotated fs. rotate_stack filters = Inr rotated \<and> iter rotated = Inr fs \<and> wf_array r \<and>
           shape r = (if min (hd (shape x)) (length fs) = 0 then [] else tl (shape x))"
proof -
  from assms obtain rotated coefs fs rs where rot: "rotate_stack filters = Inr rotated"
    and coefs: "iter x = Inr coefs" and fs: "iter rotated = Inr fs"
    and rs: "list_comp (\<lambda>(coef, f). convolve coef f meth) (zip coefs fs) = Inr rs"
    and r: "np_sum_axis0 rs = Inr r"
    by (auto simp: filter_convolve_def split: sum.splits)
  have lc: "length coefs = hd (shape x)" using iter_Inr [OF coefs] by simp
  have len: "length rs = min (hd (shape x)) (length fs)"
    using list_comp_Inr_nth(1) [OF rs] lc by simp
  have el: "shape y = tl (shape x) \<and> length (flat y) = prod_list (tl (shape x))"
    if "y \<in> set rs" for y
  proof -
    from that obtain k where k: "k < length rs" "y = rs ! k" by (auto simp: in_set_conv_nth)
    then have kz: "k < length (zip coefs fs)" using list_comp_Inr_nth(1) [OF rs] by simp
    then have "convolve (coefs ! k) (fs ! k) meth = Inr y"
      using list_comp_Inr_nth(2) [OF rs kz] k(2) by simp
    then have c: "ndim (coefs ! k) = 2" "y = convolve_same (coefs ! k) (fs ! k)"
      using convolve_Inr by blast+
    have "coefs ! k = slice0 x k" using iter_Inr [OF coefs] kz by simp
    then have "shape (coefs ! k) = tl (shape x)" by (simp add: shape_slice0)
    with c show ?thesis
      using convolve_same_length [of "coefs ! k" "fs ! k"] by (simp add: convolve_same_shape)
  qed
  define n where "n = min (hd (shape x)) (length fs)"
  have lenn: "length rs = n" using len by (simp only: n_def)
  have "wf_array r \<and> shape r = (if n = 0 then [] else tl (shape x))"
  proof (cases "rs = []")
    case True
    with r lenn show ?thesis by (auto simp: np_sum_axis0_Nil wf_array_def)
  next
    case False
    have "np_sum_axis0 rs = Inr \<lparr>shape = tl (shape x),
        flat = foldl add_arrays (replicate (prod_list (tl (shape x))) 0) (map flat rs)\<rparr>"
      using el by (intro np_sum_axis0_same_shape [OF False]) blast
    moreover have "length (foldl add_arrays (replicate (prod_list (tl (shape x))) 0) (map flat rs))
        = prod_list (tl (shape x))"
      using el by (intro foldl_add_arrays_length) auto
    moreover have "n \<noteq> 0" using False lenn by auto
    ultimately show ?thesis using r by (auto simp: wf_array_def)
  qed
  then have "wf_array r \<and>
      shape r = (if min (hd (shape x)) (length fs) = 0 then [] else tl (shape x))"
    by (simp only: n_def)
  with rot fs show ?thesis by blast
qed

lemma filter_convolve_Inr_shape:
  assumes "filter_convolve x filters rot meth = Inr r"
    and "filter_convolve x' filters rot meth = Inr r'" and "shape x = shape x'"
  shows "shape r = shape r'"
proof (cases rot)
  case True
  have x: "filter_convolve x filters True meth = Inr r"
    and x': "filter_convolve x' filters True meth = Inr r'"
    using assms(1,2) True by simp_all
  obtain rotated fs where a: "rotate_stack filters = Inr rotated" "iter rotated = Inr fs"
    "shape r = (if min (hd (shape x)) (length fs) = 0 then [] else tl (shape x))"
    using filter_convolve_rot_Inr [OF x] by blast
  obtain rotated' fs' where b: "rotate_stack filters = Inr rotated'" "iter rotated' = Inr fs'"
    "shape r' = (if min (hd (shape x')) (length fs') = 0 then [] else tl (shape x'))"
    using filter_convolve_rot_Inr [OF x'] by blast
  from a(1) b(1) have "rotated' = rotated" by simp
  with a(2) b(2) have "fs' = fs" by simp
  with a(3) b(3) assms(3) show ?thesis by (simp only:)
next
  case False
  have x: "filter_convolve x filters False meth = Inr r"
    and x': "filter_convolve x' filters False meth = Inr r'"
    using assms(1,2) False by simp_all
  have "shape r = (if hd (shape filters) = 0 then [0] else hd (shape filters) # shape x)"
    using filter_convolve_plain_Inr [OF x] by blast
  moreover have "shape r' = (if hd (shape filters) = 0 then [0] else hd (shape filters) # shape x')"
    using filter_convolve_plain_Inr [OF x'] by blast
  ultimately show ?thesis using assms(3) by (simp only:)
qed

lemma filter_convolve_Inr_wf:
  assumes "filter_convolve x filters rot meth = Inr r"
  shows "wf_array r"
proof (cases rot)
  case True
  then have "filter_convolve x filters True meth = Inr r" using assms by simp
  from filter_convolve_rot_Inr [OF this] show ?thesis by blast
next
  case False
  then have "filter_convolve x filters False meth = Inr r" using assms by simp
  from filter_convolve_plain_Inr [OF this] show ?thesis by blast
qed

text \<open>The entries of a sum of arrays, and of the result of \<open>filter_convolve\<close> with
  rotation.\<close>

lemma foldl_add_arrays_nth:
  assumes "\<And>y. y \<in> set ys \<Longrightarrow> length y = n" and "length acc = n" and "p < n"
  shows "foldl add_arrays acc ys ! p = foldl (+) (acc ! p) (map (\<lambda>y. y ! p) ys)"
  using assms
proof (induction ys arbitrary: acc)
  case Nil
  then show ?case by simp
next
  case (Cons y ys)
  have ly: "length y = n" using Cons.prems(1) by simp
  have la: "length (add_arrays acc y) = n"
    using ly Cons.prems(2) by (simp add: add_arrays_def)
  have "add_arrays acc y ! p = acc ! p + y ! p"
    using ly Cons.prems(2,3) by (simp add: add_arrays_def)
  moreover have "foldl add_arrays (add_arrays acc y) ys ! p
      = foldl (+) (add_arrays acc y ! p) (map (\<lambda>y. y ! p) ys)"
    using Cons.prems(1,3) la by (intro Cons.IH) simp_all
  ultimately show ?case by simp
qed

lemma filter_convolve_rot_elementwise:
  assumes "wf_array filters" and "shape data = [d, H, W]" and "shape filters = [K, Fh, Fw]"
    and "min d K \<noteq> 0"
  shows "\<exists>r. filter_convolve data filters True meth = Inr r \<and> shape r = [H, W] \<and> wf_array r \<and>
           flat r = foldl add_arrays (replicate (H * W) 0)
                      (map (\<lambda>k. flat (convolve_same (slice0 data k) (rot180 (slice0 filters k))))
                         [0..<min d K]) \<and>
           (\<forall>i<H. \<forall>j<W. at2 r i j =
              foldl (+) 0 (map (\<lambda>k. at2 (convolve_same (slice0 data k) (rot180 (slice0 filters k))) i j)
                             [0..<min d K]))"
proof -
  let ?c = "\<lambda>k. convolve_same (slice0 data k) (rot180 (slice0 filters k))"
  let ?ys = "map (\<lambda>k. flat (?c k)) [0..<min d K]"
  let ?r = "\<lparr>shape = [H, W], flat = foldl add_arrays (replicate (H * W) 0) ?ys\<rparr>"
  have res: "filter_convolve data filters True meth = Inr ?r"
    unfolding filter_convolve_rot_general [OF assms(1,2,3), of meth] if_not_P [OF assms(4)] ..
  have d2: "shape (slice0 data k) = [H, W]" for k using assms(2) by (simp add: shape_slice0)
  have ly: "length y = H * W" if "y \<in> set ?ys" for y
  proof -
    from that obtain k where "y = flat (?c k)" by auto
    then show ?thesis
      using convolve_same_length [of "slice0 data k" "rot180 (slice0 filters k)"] d2 [of k]
      by (simp add: ndim_def)
  qed
  have len: "length (foldl add_arrays (replicate (H * W) 0) ?ys) = H * W"
    using ly by (intro foldl_add_arrays_length) simp_all
  have el: "at2 ?r i j = foldl (+) 0 (map (\<lambda>k. at2 (?c k) i j) [0..<min d K])"
    if "i < H" "j < W" for i j
  proof -
    let ?p = "i * W + j"
    have p: "?p < H * W"
    proof -
      have "Suc i * W \<le> H * W" using that(1) by (intro mult_le_mono1) simp
      moreover have "?p < Suc i * W" using that(2) by simp
      ultimately show ?thesis by linarith
    qed
    have "foldl add_arrays (replicate (H * W) 0) ?ys ! ?p
            = foldl (+) (replicate (H * W) 0 ! ?p) (map (\<lambda>y. y ! ?p) ?ys)"
      using ly p by (intro foldl_add_arrays_nth) simp_all
    moreover have at: "at2 (?c k) i j = flat (?c k) ! ?p" for k
      by (simp add: at2_def convolve_same_shape d2)
    moreover have "at2 ?r i j = flat ?r ! ?p" by (simp add: at2_def)
    ultimately show ?thesis using p by (simp add: comp_def)
  qed
  have "wf_array ?r" using len by (simp add: wf_array_def)
  with res el show ?thesis by (intro exI [of _ ?r]) simp
qed

lemma wf_arange: "wf_array (arange s)"
  by (simp add: wf_array_def arange_def)

lemma shape_arange: "shape (arange s) = s"
  by (simp add: arange_def)

text \<open>Indices of a 2D array in row-major order, and \<open>_trim_filter\<close> on a 2D array.\<close>

lemma flat_index_bound:
  assumes "i < H" and "j < W"
  shows "i * W + j < H * (W::nat)"
proof -
  have "Suc i * W \<le> H * W" using assms(1) by (intro mult_le_mono1) simp
  moreover have "i * W + j < Suc i * W" using assms(2) by simp
  ultimately show ?thesis by linarith
qed

lemma flat_index_div_mod:
  assumes "p < H * (W::nat)"
  shows "p div W < H" and "p mod W < W" and "(p div W) * W + p mod W = p"
proof -
  have W: "0 < W" using assms by (cases W) simp_all
  show "p div W < H" using assms W by (simp add: less_mult_imp_div_less)
  show "p mod W < W" using W by simp
  show "(p div W) * W + p mod W = p" by simp
qed

lemma np_where_nonzero_2d:
  assumes "wf_array a" and "shape a = [H, W]"
  shows "np_where_nonzero a =
           [map (\<lambda>p. p div W) (filter (\<lambda>p. flat a ! p \<noteq> 0) [0..<H * W]),
            map (\<lambda>p. p mod W) (filter (\<lambda>p. flat a ! p \<noteq> 0) [0..<H * W])]"
proof -
  have len: "length (flat a) = H * W" using assms by (simp add: wf_array_def)
  have two: "[0..<length [H, W]] = [0, 1]" by (simp add: upt_rec)
  have "map (\<lambda>p. (p div W) mod H) (filter (\<lambda>p. flat a ! p \<noteq> 0) [0..<H * W])
        = map (\<lambda>p. p div W) (filter (\<lambda>p. flat a ! p \<noteq> 0) [0..<H * W])"
    by (rule map_cong) (auto simp: flat_index_div_mod(1))
  then show ?thesis
    by (simp add: np_where_nonzero_def assms(2) len two)
qed

lemma np_min_Min: "xs \<noteq> [] \<Longrightarrow> np_min xs = Inr (Min (set xs))"
proof (cases xs)
  case Nil
  assume "xs \<noteq> []"
  with Nil show ?thesis by simp
next
  case (Cons x xs')
  have "fold min xs' x = Min (set (x # xs'))" by (rule Min.set_eq_fold [symmetric])
  with Cons show ?thesis by (simp add: np_min_def)
qed

lemma np_max_Max: "xs \<noteq> [] \<Longrightarrow> np_max xs = Inr (Max (set xs))"
proof (cases xs)
  case Nil
  assume "xs \<noteq> []"
  with Nil show ?thesis by simp
next
  case (Cons x xs')
  have "fold max xs' x = Max (set (x # xs'))" by (rule Max.set_eq_fold [symmetric])
  with Cons show ?thesis by (simp add: np_max_def)
qed

lemma np_min_Nil: "np_min [] = Inl ValueError"
  by (simp add: np_min_def)

lemma concat_map_singleton: "concat (map (\<lambda>x. [f x]) xs) = map f xs"
  by (induction xs) simp_all

lemma take1_drop: "p < length xs \<Longrightarrow> take (Suc 0) (drop p xs) = [xs ! p]"
  by (simp add: take_Suc_conv_app_nth)

lemma upt_shift:
  assumes "n \<le> m"
  shows "[n..<m] = map (\<lambda>i. n + i) [0..<m - n]"
proof -
  have "map (\<lambda>i. i + n) [0..<m - n] = [n..<(m - n) + n]" by (rule map_add_upt)
  moreover have "(\<lambda>i. i + n) = (\<lambda>i. n + i)" by (simp add: add.commute)
  ultimately show ?thesis using assms by simp
qed

lemma at2_flat: "shape a = [H, W] \<Longrightarrow> at2 a i j = flat a ! (i * W + j)"
  by (simp add: at2_def)

lemma slice2_2d:
  assumes "wf_array a" and "shape a = [H, W]"
    and "r0 \<le> r1" and "r1 < H" and "c0 \<le> c1" and "c1 < W"
  shows "slice2 a r0 (r1 + 1) c0 (c1 + 1) =
           \<lparr>shape = [r1 - r0 + 1, c1 - c0 + 1],
            flat = concat (map (\<lambda>i. map (\<lambda>j. at2 a (r0 + i) (c0 + j)) [0..<c1 - c0 + 1])
                             [0..<r1 - r0 + 1])\<rparr>"
proof -
  have len: "length (flat a) = H * W" using assms(1,2) by (simp add: wf_array_def)
  have cell: "take (Suc 0) (drop (i * W + j) (flat a)) = [at2 a i j]" if "i < H" "j < W" for i j
    using flat_index_bound [OF that] len by (simp add: take1_drop at2_flat [OF assms(2)])
  have inner: "concat (map (\<lambda>j. take (Suc 0) (drop (i * W + j) (flat a))) [c0..<Suc c1])
                 = map (\<lambda>j. at2 a i j) [c0..<Suc c1]" if "i < H" for i
  proof -
    have "map (\<lambda>j. take (Suc 0) (drop (i * W + j) (flat a))) [c0..<Suc c1]
            = map (\<lambda>j. [at2 a i j]) [c0..<Suc c1]"
      using assms(6) by (intro map_cong refl cell [OF that]) auto
    then show ?thesis by (simp only: concat_map_singleton)
  qed
  have outer: "map (\<lambda>i. concat (map (\<lambda>j. take (Suc 0) (drop (i * W + j) (flat a))) [c0..<Suc c1]))
                 [r0..<Suc r1]
               = map (\<lambda>i. map (\<lambda>j. at2 a i j) [c0..<Suc c1]) [r0..<Suc r1]"
    using assms(4) by (intro map_cong refl inner) auto
  have cs: "[c0..<Suc c1] = map (\<lambda>j. c0 + j) [0..<Suc c1 - c0]"
    using assms(5) by (intro upt_shift) simp
  have rs: "[r0..<Suc r1] = map (\<lambda>i. r0 + i) [0..<Suc r1 - r0]"
    using assms(3) by (intro upt_shift) simp
  have grid: "map (\<lambda>i. map (\<lambda>j. at2 a i j) [c0..<Suc c1]) [r0..<Suc r1]
               = map (\<lambda>i. map (\<lambda>j. at2 a (r0 + i) (c0 + j)) [0..<Suc c1 - c0]) [0..<Suc r1 - r0]"
    by (subst rs, subst cs) (simp add: comp_def)
  have m1: "min (Suc r1) H = Suc r1" and m2: "min (Suc c1) W = Suc c1"
    using assms(4,6) by simp_all
  have d1: "Suc r1 - r0 = r1 - r0 + 1" and d2: "Suc c1 - c0 = c1 - c0 + 1"
    using assms(3,5) by simp_all
  have "slice2 a r0 (Suc r1) c0 (Suc c1) =
          \<lparr>shape = [Suc r1 - r0, Suc c1 - c0],
           flat = concat (map (\<lambda>i. concat (map (\<lambda>j. take (Suc 0) (drop (i * W + j) (flat a)))
                     [c0..<Suc c1])) [r0..<Suc r1])\<rparr>"
    by (simp add: slice2_def assms(2) m1 m2 Let_def)
  then show ?thesis
    by (simp only: outer grid d1 Suc_eq_plus1 [symmetric]) (simp add: d1 d2)
qed

lemma div_mod_flat_index:
  assumes "j < (W::nat)"
  shows "(i * W + j) div W = i" and "(i * W + j) mod W = j"
  using assms by simp_all

lemma nonzero_rows:
  assumes "shape a = [H, W]"
  shows "set (map (\<lambda>p. p div W) (filter (\<lambda>p. flat a ! p \<noteq> 0) [0..<H * W]))
           = {i. i < H \<and> (\<exists>j<W. at2 a i j \<noteq> 0)}" (is "?L = ?R")
proof (intro set_eqI iffI)
  fix i assume "i \<in> ?L"
  then obtain p where p: "p < H * W" "flat a ! p \<noteq> 0" "i = p div W" by auto
  have "at2 a (p div W) (p mod W) = flat a ! p"
    using flat_index_div_mod(3) [OF p(1)] by (simp add: at2_flat [OF assms])
  with p flat_index_div_mod(1,2) [OF p(1)] show "i \<in> ?R" by auto
next
  fix i assume "i \<in> ?R"
  then obtain j where j: "i < H" "j < W" "at2 a i j \<noteq> 0" by auto
  let ?p = "i * W + j"
  have "?p < H * W" using flat_index_bound [OF j(1,2)] .
  moreover have "flat a ! ?p \<noteq> 0" using j(3) by (simp add: at2_flat [OF assms])
  moreover have "?p div W = i" using div_mod_flat_index(1) [OF j(2)] .
  ultimately have "?p \<in> set (filter (\<lambda>p. flat a ! p \<noteq> 0) [0..<H * W])" and "i = ?p div W"
    by simp_all
  then show "i \<in> ?L" by (metis (no_types, lifting) image_eqI set_map)
qed

lemma nonzero_cols:
  assumes "shape a = [H, W]"
  shows "set (map (\<lambda>p. p mod W) (filter (\<lambda>p. flat a ! p \<noteq> 0) [0..<H * W]))
           = {j. j < W \<and> (\<exists>i<H. at2 a i j \<noteq> 0)}" (is "?L = ?R")
proof (intro set_eqI iffI)
  fix j assume "j \<in> ?L"
  then obtain p where p: "p < H * W" "flat a ! p \<noteq> 0" "j = p mod W" by auto
  have "at2 a (p div W) (p mod W) = flat a ! p"
    using flat_index_div_mod(3) [OF p(1)] by (simp add: at2_flat [OF assms])
  with p flat_index_div_mod(1,2) [OF p(1)] show "j \<in> ?R" by auto
next
  fix j assume "j \<in> ?R"
  then obtain i where i: "i < H" "j < W" "at2 a i j \<noteq> 0" by auto
  let ?p = "i * W + j"
  have "?p < H * W" using flat_index_bound [OF i(1,2)] .
  moreover have "flat a ! ?p \<noteq> 0" using i(3) by (simp add: at2_flat [OF assms])
  moreover have "?p mod W = j" using div_mod_flat_index(2) [OF i(2)] .
  ultimately have "?p \<in> set (filter (\<lambda>p. flat a ! p \<noteq> 0) [0..<H * W])" and "j = ?p mod W"
    by simp_all
  then show "j \<in> ?L" by (metis (no_types, lifting) image_eqI set_map)
qed

lemma trim_filter_2d:
  assumes "wf_array a" and "shape a = [H, W]"
  shows "trim_filter a =
     (let nz = filter (\<lambda>p. flat a ! p \<noteq> 0) [0..<H * W];
          rows = map (\<lambda>p. p div W) nz; cols = map (\<lambda>p. p mod W) nz
      in if nz = [] then Inl ValueError
         else Inr (slice2 a (Min (set rows)) (Max (set rows) + 1)
                            (Min (set cols)) (Max (set cols) + 1)))"
proof (cases "filter (\<lambda>p. flat a ! p \<noteq> 0) [0..<H * W] = []")
  case True
  then show ?thesis
    by (simp add: trim_filter_def np_where_nonzero_2d [OF assms] np_min_Nil)
next
  case False
  let ?nz = "filter (\<lambda>p. flat a ! p \<noteq> 0) [0..<H * W]"
  have r: "map (\<lambda>p. p div W) ?nz \<noteq> []" and c: "map (\<lambda>p. p mod W) ?nz \<noteq> []"
    using False by simp_all
  show ?thesis
    unfolding trim_filter_def np_where_nonzero_2d [OF assms] Let_def
    by (simp add: np_min_Min [OF r] np_min_Min [OF c] np_max_Max [OF r] np_max_Max [OF c] False
        del: set_map set_filter)
qed

section \<open>The filter convolver without rotation\<close>

text \<open>
  C1. For a 2D image \<open>data\<close> of shape \<open>(H, W)\<close> and a bank \<open>filters\<close> of
  \<open>K > 0\<close> 2D filters, \<open>filter_convolve\<close> without rotation returns an array of
  shape \<open>(K, H, W)\<close> whose \<open>k\<close>-th slice is the convolution of \<open>data\<close> with
  \<open>filters[k]\<close>, in the order of the filters: its entry \<open>(i, j)\<close> is the centred
  ``same'' convolution sum.
\<close>

theorem filter_convolve_plain:
  assumes "shape data = [H, W]" and "shape filters = [K, Fh, Fw]" and "0 < K"
  shows "\<exists>r. filter_convolve data filters False meth = Inr r \<and> shape r = [K, H, W] \<and>
           (\<forall>k<K. getitem r k = convolve data (slice0 filters k) meth \<and>
              (\<forall>i<H. \<forall>j<W. at2 (slice0 r k) i j = same_at data (slice0 filters k) i j))"
proof -
  let ?cs = "map (\<lambda>k. convolve_same data (slice0 filters k)) [0..<K]"
  let ?r = "\<lparr>shape = length ?cs # [H, W], flat = concat (map flat ?cs)\<rparr>"
  have d2: "ndim data = 2" using assms(1) by (simp add: ndim_def)
  have f2: "ndim (slice0 filters k) = 2" for k using assms(2) by (simp add: ndim_def shape_slice0)
  have lc: "list_comp (\<lambda>f. convolve data f meth) (map (slice0 filters) [0..<K])
             = Inr (map (convolve_same data) (map (slice0 filters) [0..<K]))"
    by (rule list_comp_total) (auto simp: convolve_2d d2 f2)
  have na: "np_array ?cs = Inr ?r"
    using assms by (intro np_array_same_shape) (auto simp: convolve_same_shape)
  have res: "filter_convolve data filters False meth = Inr ?r"
    using na by (simp add: filter_convolve_def iter_Cons [OF assms(2)] lc comp_def)
  have sl: "slice0 ?r k = convolve_same data (slice0 filters k)" if "k < K" for k
  proof -
    have "slice0 ?r k = ?cs ! k"
      using that assms(1) d2 by (intro slice0_stacked) (auto simp: convolve_same_shape convolve_same_length)
    then show ?thesis using that by simp
  qed
  have "getitem ?r k = convolve data (slice0 filters k) meth" if "k < K" for k
    using that sl [OF that] by (simp add: getitem_def convolve_2d d2 f2)
  moreover have "at2 (slice0 ?r k) i j = same_at data (slice0 filters k) i j"
    if "k < K" "i < H" "j < W" for k i j
    using that sl [of k] convolve_same_at2 [OF assms(1)] by simp
  ultimately show ?thesis using res by auto
qed


theorem filter_convolve_plain_witness:
  "\<exists>r. filter_convolve (arange [2, 3]) (arange [2, 3, 3]) False Scipy = Inr (r :: int ndarray) \<and>
       shape r = [2, 2, 3] \<and>
       (\<forall>k<2. getitem r k = convolve (arange [2, 3]) (slice0 (arange [2, 3, 3]) k) Scipy \<and>
          (\<forall>i<2. \<forall>j<3. at2 (slice0 r k) i j = same_at (arange [2, 3]) (slice0 (arange [2, 3, 3]) k) i j))"
  using filter_convolve_plain [of "arange [2, 3]" 2 3 "arange [2, 3, 3]" 2 3 3 Scipy]
  by (simp add: arange_def)

section \<open>The filter convolver with rotation\<close>

text \<open>
  C2. For a coefficient stack \<open>data\<close> of shape \<open>(K, H, W)\<close> and a bank of \<open>K\<close>
  filters of shape \<open>(Fh, Fw)\<close>, not empty as the specification requires of a bank,
  \<open>filter_convolve\<close> with rotation rotates every filter by 180 degrees (entry
  \<open>(i, j)\<close> of the \<open>k\<close>-th rotated filter is entry \<open>(Fh - 1 - i, Fw - 1 - j)\<close> of the
  \<open>k\<close>-th filter), convolves \<open>data[k]\<close> with the \<open>k\<close>-th rotated filter, and returns
  one array of shape \<open>(H, W)\<close> whose entry \<open>(i, j)\<close> is the sum of the entries
  \<open>(i, j)\<close> of these \<open>K\<close> convolutions, added one after the other in the order
  \<open>0, \<dots>, K - 1\<close>. No law of addition is assumed, so the order is part of the
  statement.
\<close>

theorem filter_convolve_rot_sum:
  assumes "wf_array filters" and "shape data = [K, H, W]" and "shape filters = [K, Fh, Fw]"
    and "0 < K"
  shows "\<exists>rs cs r. length rs = K \<and> length cs = K \<and>
           (\<forall>k<K. rotate (slice0 filters k) = Inr (rs ! k) \<and>
              (\<forall>i<Fh. \<forall>j<Fw. at2 (rs ! k) i j = at2 (slice0 filters k) (Fh - 1 - i) (Fw - 1 - j)) \<and>
              convolve (slice0 data k) (rs ! k) meth = Inr (cs ! k)) \<and>
           filter_convolve data filters True meth = Inr r \<and> shape r = [H, W] \<and> wf_array r \<and>
           flat r = foldl add_arrays (replicate (H * W) 0) (map flat cs) \<and>
           (\<forall>i<H. \<forall>j<W. at2 r i j = foldl (+) 0 (map (\<lambda>k. at2 (cs ! k) i j) [0..<K]))"
proof -
  let ?rs = "map (\<lambda>k. rot180 (slice0 filters k)) [0..<K]"
  let ?c = "\<lambda>k. convolve_same (slice0 data k) (rot180 (slice0 filters k))"
  let ?cs = "map ?c [0..<K]"
  have f2: "shape (slice0 filters k) = [Fh, Fw]" for k
    using assms(3) by (simp add: shape_slice0)
  have d2: "shape (slice0 data k) = [H, W]" for k
    using assms(2) by (simp add: shape_slice0)
  have m: "min K K \<noteq> 0" using assms(4) by simp
  obtain r where r: "filter_convolve data filters True meth = Inr r" "shape r = [H, W]"
    "wf_array r"
    "flat r = foldl add_arrays (replicate (H * W) 0) (map (\<lambda>k. flat (?c k)) [0..<min K K])"
    "\<forall>i<H. \<forall>j<W. at2 r i j = foldl (+) 0 (map (\<lambda>k. at2 (?c k) i j) [0..<min K K])"
    using filter_convolve_rot_elementwise [OF assms(1,2,3) m, of meth] by blast
  have a: "rotate (slice0 filters k) = Inr (?rs ! k)" if "k < K" for k
    using that f2 by (simp add: rotate_2d ndim_def)
  have b: "at2 (?rs ! k) i j = at2 (slice0 filters k) (Fh - 1 - i) (Fw - 1 - j)"
    if "k < K" "i < Fh" "j < Fw" for k i j
    using that rot180_at2 [OF slice0_wf [OF assms(1,3) that(1)] f2 that(2,3)] by simp
  have c: "convolve (slice0 data k) (?rs ! k) meth = Inr (?cs ! k)" if "k < K" for k
    using that f2 d2 by (simp add: convolve_2d ndim_def shape_rot180)
  have fl: "flat r = foldl add_arrays (replicate (H * W) 0) (map flat ?cs)"
    using r(4) by (simp add: comp_def)
  have el: "at2 r i j = foldl (+) 0 (map (\<lambda>k. at2 (?cs ! k) i j) [0..<K])"
    if "i < H" "j < W" for i j
  proof -
    have eq: "map (\<lambda>k. at2 (?cs ! k) i j) [0..<K] = map (\<lambda>k. at2 (?c k) i j) [0..<K]"
      by (rule map_cong) simp_all
    have "at2 r i j = foldl (+) 0 (map (\<lambda>k. at2 (?c k) i j) [0..<min K K])"
      using r(5) that by blast
    then show ?thesis unfolding eq by simp
  qed
  have "length ?rs = K \<and> length ?cs = K \<and>
           (\<forall>k<K. rotate (slice0 filters k) = Inr (?rs ! k) \<and>
              (\<forall>i<Fh. \<forall>j<Fw. at2 (?rs ! k) i j = at2 (slice0 filters k) (Fh - 1 - i) (Fw - 1 - j)) \<and>
              convolve (slice0 data k) (?rs ! k) meth = Inr (?cs ! k)) \<and>
           filter_convolve data filters True meth = Inr r \<and> shape r = [H, W] \<and> wf_array r \<and>
           flat r = foldl add_arrays (replicate (H * W) 0) (map flat ?cs) \<and>
           (\<forall>i<H. \<forall>j<W. at2 r i j = foldl (+) 0 (map (\<lambda>k. at2 (?cs ! k) i j) [0..<K]))"
  proof (intro conjI allI impI)
    show "length ?rs = K" by simp
    show "length ?cs = K" by simp
    show "rotate (slice0 filters k) = Inr (?rs ! k)" if "k < K" for k by (rule a [OF that])
    show "at2 (?rs ! k) i j = at2 (slice0 filters k) (Fh - 1 - i) (Fw - 1 - j)"
      if "k < K" "i < Fh" "j < Fw" for k i j by (rule b [OF that])
    show "convolve (slice0 data k) (?rs ! k) meth = Inr (?cs ! k)" if "k < K" for k
      by (rule c [OF that])
    show "filter_convolve data filters True meth = Inr r" by (rule r(1))
    show "shape r = [H, W]" by (rule r(2))
    show "wf_array r" by (rule r(3))
    show "flat r = foldl add_arrays (replicate (H * W) 0) (map flat ?cs)" by (rule fl)
    show "at2 r i j = foldl (+) 0 (map (\<lambda>k. at2 (?cs ! k) i j) [0..<K])"
      if "i < H" "j < W" for i j by (rule el [OF that])
  qed
  then show ?thesis by (intro exI)
qed

theorem filter_convolve_rot_sum_witness:
  "\<exists>rs cs r. length rs = 2 \<and> length cs = 2 \<and>
     (\<forall>k<2. rotate (slice0 (arange [2, 3, 3]) k) = Inr (rs ! k) \<and>
        (\<forall>i<3. \<forall>j<3. at2 (rs ! k) i j = at2 (slice0 (arange [2, 3, 3]) k) (3 - 1 - i) (3 - 1 - j)) \<and>
        convolve (slice0 (arange [2, 2, 2]) k) (rs ! k) Scipy = Inr (cs ! k)) \<and>
     filter_convolve (arange [2, 2, 2]) (arange [2, 3, 3]) True Scipy = Inr r \<and>
     shape r = [2, 2] \<and> wf_array r \<and>
     flat r = foldl add_arrays (replicate (2 * 2) (0 :: real)) (map flat cs) \<and>
     (\<forall>i<2. \<forall>j<2. at2 r i j = foldl (+) 0 (map (\<lambda>k. at2 (cs ! k) i j) [0..<2]))"
  using filter_convolve_rot_sum [where filters = "arange [2, 3, 3] :: real ndarray"
      and data = "arange [2, 2, 2]" and K = 2 and H = 2 and W = 2 and Fh = 3 and Fw = 3
      and meth = Scipy]
  by (simp add: wf_arange shape_arange)

text \<open>
  C9. For \<open>data\<close> of shape \<open>(d, H, W)\<close> and a bank of \<open>K\<close> filters,
  \<open>filter_convolve\<close> with rotation raises no error, whether or not \<open>d = K\<close>: it
  pairs the first \<open>min d K\<close> slices of \<open>data\<close> with the first \<open>min d K\<close> rotated
  filters, ignoring the further slices of the longer operand, and entry \<open>(i, j)\<close> of
  its result is the sum of the entries \<open>(i, j)\<close> of these convolutions in index order;
  when \<open>min d K = 0\<close> the result is the scalar zero (shape \<open>()\<close>).
\<close>

theorem filter_convolve_rot_truncates:
  assumes "wf_array filters" and "shape data = [d, H, W]" and "shape filters = [K, Fh, Fw]"
  shows "\<exists>cs. length cs = min d K \<and>
           (\<forall>k<min d K. \<exists>f. rotate (slice0 filters k) = Inr f \<and>
                                convolve (slice0 data k) f meth = Inr (cs ! k)) \<and>
           filter_convolve data filters True meth =
             (if min d K = 0 then Inr \<lparr>shape = [], flat = [0]\<rparr>
              else Inr \<lparr>shape = [H, W],
                        flat = foldl add_arrays (replicate (H * W) 0) (map flat cs)\<rparr>) \<and>
           (min d K \<noteq> 0 \<longrightarrow>
              (\<exists>r. filter_convolve data filters True meth = Inr r \<and>
                 (\<forall>i<H. \<forall>j<W. at2 r i j =
                    foldl (+) 0 (map (\<lambda>k. at2 (cs ! k) i j) [0..<min d K]))))"
proof -
  let ?c = "\<lambda>k. convolve_same (slice0 data k) (rot180 (slice0 filters k))"
  let ?cs = "map ?c [0..<min d K]"
  have f2: "shape (slice0 filters k) = [Fh, Fw]" for k
    using assms(3) by (simp add: shape_slice0)
  have d2: "shape (slice0 data k) = [H, W]" for k
    using assms(2) by (simp add: shape_slice0)
  have eq: "map (\<lambda>k. at2 (?cs ! k) i j) [0..<min d K] = map (\<lambda>k. at2 (?c k) i j) [0..<min d K]"
    for i j by (rule map_cong) simp_all
  have a: "\<exists>f. rotate (slice0 filters k) = Inr f \<and> convolve (slice0 data k) f meth = Inr (?cs ! k)"
    if "k < min d K" for k
    using that f2 d2 by (simp add: rotate_2d convolve_2d ndim_def shape_rot180)
  have b: "filter_convolve data filters True meth =
             (if min d K = 0 then Inr \<lparr>shape = [], flat = [0]\<rparr>
              else Inr \<lparr>shape = [H, W],
                        flat = foldl add_arrays (replicate (H * W) 0) (map flat ?cs)\<rparr>)"
  proof (cases "min d K = 0")
    case True
    show ?thesis
      unfolding filter_convolve_rot_general [OF assms(1,2,3), of meth] if_P [OF True] True
      by simp
  next
    case False
    show ?thesis
      unfolding filter_convolve_rot_general [OF assms(1,2,3), of meth] if_not_P [OF False]
      by (simp add: comp_def)
  qed
  have c: "\<exists>r. filter_convolve data filters True meth = Inr r \<and>
             (\<forall>i<H. \<forall>j<W. at2 r i j = foldl (+) 0 (map (\<lambda>k. at2 (?cs ! k) i j) [0..<min d K]))"
    if "min d K \<noteq> 0"
    using filter_convolve_rot_elementwise [OF assms(1,2,3) that, of meth] unfolding eq by blast
  have "length ?cs = min d K \<and>
           (\<forall>k<min d K. \<exists>f. rotate (slice0 filters k) = Inr f \<and>
                                convolve (slice0 data k) f meth = Inr (?cs ! k)) \<and>
           filter_convolve data filters True meth =
             (if min d K = 0 then Inr \<lparr>shape = [], flat = [0]\<rparr>
              else Inr \<lparr>shape = [H, W],
                        flat = foldl add_arrays (replicate (H * W) 0) (map flat ?cs)\<rparr>) \<and>
           (min d K \<noteq> 0 \<longrightarrow>
              (\<exists>r. filter_convolve data filters True meth = Inr r \<and>
                 (\<forall>i<H. \<forall>j<W. at2 r i j =
                    foldl (+) 0 (map (\<lambda>k. at2 (?cs ! k) i j) [0..<min d K]))))"
  proof (intro conjI allI impI)
    show "length ?cs = min d K" by simp
    show "\<exists>f. rotate (slice0 filters k) = Inr f \<and> convolve (slice0 data k) f meth = Inr (?cs ! k)"
      if "k < min d K" for k by (rule a [OF that])
    show "filter_convolve data filters True meth =
             (if min d K = 0 then Inr \<lparr>shape = [], flat = [0]\<rparr>
              else Inr \<lparr>shape = [H, W],
                        flat = foldl add_arrays (replicate (H * W) 0) (map flat ?cs)\<rparr>)"
      by (rule b)
    show "\<exists>r. filter_convolve data filters True meth = Inr r \<and>
             (\<forall>i<H. \<forall>j<W. at2 r i j = foldl (+) 0 (map (\<lambda>k. at2 (?cs ! k) i j) [0..<min d K]))"
      if "min d K \<noteq> 0" by (rule c [OF that])
  qed
  then show ?thesis by (intro exI)
qed

theorem filter_convolve_rot_truncates_witness:
  "\<exists>cs. length cs = 2 \<and>
     (\<forall>k<2. \<exists>f. rotate (slice0 (arange [2, 3, 3]) k) = Inr f \<and>
                  convolve (slice0 (arange [3, 2, 2]) k) f Scipy = Inr (cs ! k)) \<and>
     filter_convolve (arange [3, 2, 2]) (arange [2, 3, 3]) True Scipy =
       Inr \<lparr>shape = [2, 2], flat = foldl add_arrays (replicate (2 * 2) (0 :: real)) (map flat cs)\<rparr> \<and>
     (\<exists>r. filter_convolve (arange [3, 2, 2]) (arange [2, 3, 3]) True Scipy = Inr r \<and>
        (\<forall>i<2. \<forall>j<2. at2 r i j = foldl (+) (0 :: real) (map (\<lambda>k. at2 (cs ! k) i j) [0..<2])))"
  using filter_convolve_rot_truncates [where filters = "arange [2, 3, 3] :: real ndarray"
      and data = "arange [3, 2, 2]" and d = 3 and K = 2 and H = 2 and W = 2 and Fh = 3 and Fw = 3
      and meth = Scipy]
  by (simp add: wf_arange shape_arange)

text \<open>
  C5, as stated, fails: a coefficient stack of one slice and a bank of two filters give a
  result, not an error.
\<close>

theorem filter_convolve_rot_mismatch_counterexample:
  "filter_convolve (arange [1, 2, 2]) (arange [2, 2, 2]) True Scipy
     = Inr \<lparr>shape = [2, 2], flat = [0, 3, 6, 14 :: real]\<rparr>"
  by code_simp

text \<open>
  C5, amended. For a coefficient stack of shape \<open>(K', H, W)\<close> and a bank of
  \<open>K \<noteq> K'\<close> filters, \<open>filter_convolve\<close> with rotation raises no error: the first
  \<open>min K' K\<close> slices are paired with the first \<open>min K' K\<close> rotated filters, and the
  result is the array of shape \<open>(H, W)\<close> whose entries are the sums of the entries of
  these convolutions in index order when both \<open>K'\<close> and \<open>K\<close> are positive, and the
  scalar zero otherwise.
\<close>

theorem filter_convolve_rot_mismatch_returns:
  assumes "wf_array filters" and "shape data = [K', H, W]" and "shape filters = [K, Fh, Fw]"
    and "K' \<noteq> K"
  shows "\<exists>cs r. length cs = min K' K \<and>
           (\<forall>k<min K' K. \<exists>f. rotate (slice0 filters k) = Inr f \<and>
                                 convolve (slice0 data k) f meth = Inr (cs ! k)) \<and>
           filter_convolve data filters True meth = Inr r \<and>
           shape r = (if K' = 0 \<or> K = 0 then [] else [H, W]) \<and>
           (if K' = 0 \<or> K = 0 then flat r = [0]
            else \<forall>i<H. \<forall>j<W. at2 r i j =
                   foldl (+) 0 (map (\<lambda>k. at2 (cs ! k) i j) [0..<min K' K]))"
proof -
  let ?c = "\<lambda>k. convolve_same (slice0 data k) (rot180 (slice0 filters k))"
  let ?cs = "map ?c [0..<min K' K]"
  have f2: "shape (slice0 filters k) = [Fh, Fw]" for k
    using assms(3) by (simp add: shape_slice0)
  have d2: "shape (slice0 data k) = [H, W]" for k
    using assms(2) by (simp add: shape_slice0)
  have eq: "map (\<lambda>k. at2 (?cs ! k) i j) [0..<min K' K] = map (\<lambda>k. at2 (?c k) i j) [0..<min K' K]"
    for i j by (rule map_cong) simp_all
  have a: "\<exists>f. rotate (slice0 filters k) = Inr f \<and> convolve (slice0 data k) f meth = Inr (?cs ! k)"
    if "k < min K' K" for k
    using that f2 d2 by (simp add: rotate_2d convolve_2d ndim_def shape_rot180)
  have "\<exists>r. filter_convolve data filters True meth = Inr r \<and>
           shape r = (if K' = 0 \<or> K = 0 then [] else [H, W]) \<and>
           (if K' = 0 \<or> K = 0 then flat r = [0]
            else \<forall>i<H. \<forall>j<W. at2 r i j =
                   foldl (+) 0 (map (\<lambda>k. at2 (?cs ! k) i j) [0..<min K' K]))"
  proof (cases "min K' K = 0")
    case True
    then have z: "K' = 0 \<or> K = 0" by auto
    have "filter_convolve data filters True meth = Inr \<lparr>shape = [], flat = [0]\<rparr>"
      unfolding filter_convolve_rot_general [OF assms(1,2,3), of meth] if_P [OF True] True
      by simp
    then show ?thesis unfolding if_P [OF z] by simp
  next
    case False
    then have z: "\<not> (K' = 0 \<or> K = 0)" by auto
    obtain r where "filter_convolve data filters True meth = Inr r" "shape r = [H, W]"
      "\<forall>i<H. \<forall>j<W. at2 r i j = foldl (+) 0 (map (\<lambda>k. at2 (?c k) i j) [0..<min K' K])"
      using filter_convolve_rot_elementwise [OF assms(1,2,3) False, of meth] by blast
    then show ?thesis unfolding if_not_P [OF z] eq by blast
  qed
  then obtain r where r: "filter_convolve data filters True meth = Inr r"
    "shape r = (if K' = 0 \<or> K = 0 then [] else [H, W])"
    "if K' = 0 \<or> K = 0 then flat r = [0]
     else \<forall>i<H. \<forall>j<W. at2 r i j = foldl (+) 0 (map (\<lambda>k. at2 (?cs ! k) i j) [0..<min K' K])"
    by blast
  have "length ?cs = min K' K \<and>
           (\<forall>k<min K' K. \<exists>f. rotate (slice0 filters k) = Inr f \<and>
                                 convolve (slice0 data k) f meth = Inr (?cs ! k)) \<and>
           filter_convolve data filters True meth = Inr r \<and>
           shape r = (if K' = 0 \<or> K = 0 then [] else [H, W]) \<and>
           (if K' = 0 \<or> K = 0 then flat r = [0]
            else \<forall>i<H. \<forall>j<W. at2 r i j =
                   foldl (+) 0 (map (\<lambda>k. at2 (?cs ! k) i j) [0..<min K' K]))"
  proof (intro conjI allI impI)
    show "length ?cs = min K' K" by simp
    show "\<exists>f. rotate (slice0 filters k) = Inr f \<and> convolve (slice0 data k) f meth = Inr (?cs ! k)"
      if "k < min K' K" for k by (rule a [OF that])
    show "filter_convolve data filters True meth = Inr r" by (rule r(1))
    show "shape r = (if K' = 0 \<or> K = 0 then [] else [H, W])" by (rule r(2))
    show "if K' = 0 \<or> K = 0 then flat r = [0]
      else \<forall>i<H. \<forall>j<W. at2 r i j = foldl (+) 0 (map (\<lambda>k. at2 (?cs ! k) i j) [0..<min K' K])"
      by (rule r(3))
  qed
  then show ?thesis by (intro exI)
qed

theorem filter_convolve_rot_mismatch_returns_witness:
  "\<exists>cs r. length cs = 1 \<and>
     (\<forall>k<1. \<exists>f. rotate (slice0 (arange [2, 2, 2]) k) = Inr f \<and>
                  convolve (slice0 (arange [1, 2, 2]) k) f Scipy = Inr (cs ! k)) \<and>
     filter_convolve (arange [1, 2, 2]) (arange [2, 2, 2]) True Scipy = Inr r \<and>
     shape r = [2, 2] \<and>
     (\<forall>i<2. \<forall>j<2. at2 r i j = foldl (+) (0 :: real) (map (\<lambda>k. at2 (cs ! k) i j) [0..<1]))"
  using filter_convolve_rot_mismatch_returns [where filters = "arange [2, 2, 2] :: real ndarray"
      and data = "arange [1, 2, 2]" and K' = 1 and K = 2 and H = 2 and W = 2 and Fh = 2 and Fw = 2
      and meth = Scipy]
  by (simp add: wf_arange shape_arange)

section \<open>Empty filter banks and arrays of the wrong rank\<close>

text \<open>
  C4, as stated, fails: without rotation, an image and an empty bank give the empty array
  of shape \<open>(0,)\<close>, not an error.
\<close>

theorem filter_convolve_empty_bank_counterexample:
  "filter_convolve (arange [3, 3]) \<lparr>shape = [0, 3, 3], flat = []\<rparr> False Scipy
     = Inr \<lparr>shape = [0], flat = ([] :: real list)\<rparr>"
  by code_simp

text \<open>
  C4, amended. For every \<open>data\<close> and every empty filter bank (\<open>K = 0\<close>),
  \<open>filter_convolve\<close> raises no shape-mismatch error: without rotation it returns the
  empty array of shape \<open>(0,)\<close>; with rotation it returns the scalar zero, unless
  \<open>data\<close> is a 0-d array, which cannot be iterated (\<open>TypeError\<close>).
\<close>

theorem filter_convolve_empty_bank:
  assumes "shape filters = 0 # s"
  shows "filter_convolve data filters False meth = Inr \<lparr>shape = [0], flat = []\<rparr> \<and>
         filter_convolve data filters True meth =
           (if shape data = [] then Inl TypeError else Inr \<lparr>shape = [], flat = [0]\<rparr>)"
proof -
  have it: "iter filters = Inr []" using assms by (simp add: iter_def)
  have ie: "iter \<lparr>shape = [0], flat = []\<rparr> = Inr ([] :: 'a ndarray list)"
    by (simp add: iter_def)
  have rs: "rotate_stack filters = Inr \<lparr>shape = [0], flat = []\<rparr>"
    by (simp add: rotate_stack_def it np_array_Nil)
  have a: "filter_convolve data filters False meth = Inr \<lparr>shape = [0], flat = []\<rparr>"
    by (simp add: filter_convolve_def it np_array_Nil)
  have b: "filter_convolve data filters True meth =
           (if shape data = [] then Inl TypeError else Inr \<lparr>shape = [], flat = [0]\<rparr>)"
  proof (cases "shape data")
    case Nil
    then show ?thesis by (simp add: filter_convolve_def rs iter_def)
  next
    case (Cons d t)
    then show ?thesis
      by (simp add: filter_convolve_def rs ie iter_Cons [OF Cons] np_sum_axis0_Nil)
  qed
  from a b show ?thesis by simp
qed

theorem filter_convolve_empty_bank_witness:
  "filter_convolve (arange [3, 3]) \<lparr>shape = [0, 3, 3], flat = []\<rparr> False Astropy
     = Inr \<lparr>shape = [0], flat = ([] :: real list)\<rparr> \<and>
   filter_convolve (arange [3, 3]) \<lparr>shape = [0, 3, 3], flat = []\<rparr> True Astropy
     = Inr \<lparr>shape = [], flat = [0 :: real]\<rparr>"
  using filter_convolve_empty_bank [where filters = "\<lparr>shape = [0, 3, 3], flat = [] :: real list\<rparr>"
      and s = "[3, 3]" and data = "arange [3, 3]" and meth = Astropy]
  by (simp add: shape_arange)

text \<open>
  C6, as stated, fails: with rotation, a 2D array without rows (shape \<open>(0, 3)\<close>) is
  not 3D, and it gives the scalar zero, not an error.
\<close>

theorem filter_convolve_rank_counterexample:
  "filter_convolve \<lparr>shape = [0, 3], flat = []\<rparr> (arange [4, 3, 3]) True Scipy
     = Inr \<lparr>shape = [], flat = [0 :: real]\<rparr>"
  by code_simp

text \<open>
  C6, amended. For a bank of \<open>K > 0\<close> 2D filters: without rotation, \<open>data\<close> that
  is not 2D fails with the invalid-input error of the convolution; with rotation,
  \<open>data\<close> that is not 3D fails with that error when its leading axis is not empty and
  with \<open>TypeError\<close> when it is 0-d, and gives the scalar zero when its leading axis is
  empty.
\<close>

theorem filter_convolve_wrong_rank:
  assumes "wf_array filters" and "shape filters = [K, Fh, Fw]" and "0 < K"
  shows "(ndim data \<noteq> 2 \<longrightarrow> filter_convolve data filters False meth = Inl InvalidInputError) \<and>
         (ndim data \<noteq> 3 \<longrightarrow> filter_convolve data filters True meth =
            (case shape data of
               [] \<Rightarrow> Inl TypeError
             | d # s \<Rightarrow> if d = 0 then Inr \<lparr>shape = [], flat = [0]\<rparr> else Inl InvalidInputError))"
proof -
  have upt: "[0..<n] = 0 # [1..<n]" if "0 < n" for n
    using that by (simp add: upt_conv_Cons)
  have a: "filter_convolve data filters False meth = Inl InvalidInputError" if "ndim data \<noteq> 2"
  proof -
    have "convolve data (slice0 filters 0) meth = Inl InvalidInputError"
      using that by (simp add: convolve_not_2d)
    then show ?thesis
      by (simp add: filter_convolve_def iter_Cons [OF assms(2)] upt [OF assms(3)])
  qed
  have b: "filter_convolve data filters True meth =
            (case shape data of
               [] \<Rightarrow> Inl TypeError
             | d # s \<Rightarrow> if d = 0 then Inr \<lparr>shape = [], flat = [0]\<rparr> else Inl InvalidInputError)"
    if nd: "ndim data \<noteq> 3"
  proof -
    obtain rotated where rot: "rotate_stack filters = Inr rotated"
      "iter rotated = Inr (map (\<lambda>k. rot180 (slice0 filters k)) [0..<K])"
      using rotate_stack_3d [OF assms(1,2)] by blast
    show ?thesis
    proof (cases "shape data")
      case Nil
      then show ?thesis by (simp add: filter_convolve_def rot iter_def)
    next
      case (Cons d s)
      show ?thesis
      proof (cases "d = 0")
        case True
        then show ?thesis
          by (simp add: filter_convolve_def rot iter_Cons [OF Cons] Cons np_sum_axis0_Nil)
      next
        case False
        then have pos: "0 < min d K" using assms(3) by simp
        have "ndim (slice0 data 0) \<noteq> 2"
          using nd Cons by (simp add: ndim_def shape_slice0)
        then have "convolve (slice0 data 0) (rot180 (slice0 filters 0)) meth = Inl InvalidInputError"
          by (simp add: convolve_not_2d)
        then show ?thesis using False
          by (simp add: filter_convolve_def rot iter_Cons [OF Cons] Cons zip_map_upt upt [OF pos])
      qed
    qed
  qed
  from a b show ?thesis by blast
qed

theorem filter_convolve_wrong_rank_witness:
  "filter_convolve (arange [2, 3, 3]) (arange [4, 3, 3] :: real ndarray) False Scipy
     = Inl InvalidInputError \<and>
   filter_convolve (arange [3, 3]) (arange [4, 3, 3] :: real ndarray) True Scipy = Inl InvalidInputError"
  using filter_convolve_wrong_rank [where filters = "arange [4, 3, 3] :: real ndarray"
      and K = 4 and Fh = 3 and Fw = 3 and data = "arange [2, 3, 3]" and meth = Scipy]
    filter_convolve_wrong_rank [where filters = "arange [4, 3, 3] :: real ndarray"
      and K = 4 and Fh = 3 and Fw = 3 and data = "arange [3, 3]" and meth = Scipy]
  by (simp add: ndim_def wf_arange shape_arange)

section \<open>The examples of the docstring\<close>

text \<open>
  C7. The docstring of \<open>filter_convolve\<close> gives, for \<open>x = arange(9).reshape(3, 3)\<close>
  and \<open>y = arange(36).reshape(4, 3, 3)\<close>, a result whose first entry is \<open>174\<close>. With
  the centred zero-boundary convolution the result has shape \<open>(4, 3, 3)\<close> and its first
  entry is \<open>6\<close>; the values of the docstring are those of a convolution that wraps
  around the boundary.
\<close>

theorem filter_convolve_docstring_example:
  "filter_convolve (arange [3, 3]) (arange [4, 3, 3]) False Scipy =
     Inr \<lparr>shape = [4, 3, 3],
          flat = [6, 20, 26, 36, 84, 84, 90, 164, 134,
                  78, 155, 134, 225, 408, 327, 270, 461, 350,
                  150, 290, 242, 414, 732, 570, 450, 758, 566,
                  222, 425, 350, 603, 1056, 813, 630, 1055, 782 :: real]\<rparr>"
  by code_simp

text \<open>
  C8. The docstring gives, for \<open>y\<close> as both \<open>data\<close> and \<open>filters\<close> with rotation, a
  result whose first entry is \<open>14550\<close>. With the centred zero-boundary convolution the
  result has shape \<open>(3, 3)\<close> and its first entry is \<open>6496\<close>; only the central entry
  \<open>14910\<close>, which no boundary reaches, is that of the docstring.
\<close>

theorem filter_convolve_rot_docstring_example:
  "filter_convolve (arange [4, 3, 3]) (arange [4, 3, 3]) True Scipy =
     Inr \<lparr>shape = [3, 3],
          flat = [6496, 9796, 6544, 9924, 14910, 9924, 6544, 9796, 6496 :: real]\<rparr>"
  by code_simp

section \<open>The stack convolver\<close>

text \<open>
  C3. For a stack \<open>data\<close> of \<open>N\<close> elements and every index \<open>i < N\<close>: when
  \<open>filter_convolve_stack\<close> returns, slice \<open>i\<close> of its result is the result of
  \<open>filter_convolve\<close> on \<open>data[i]\<close> with the same filters, mode and method; when it
  fails, it fails with the error of one of the elements; and it returns whenever
  \<open>filter_convolve\<close> returns on every element.
\<close>

theorem filter_convolve_stack_law:
  assumes "shape data = N # s" and "i < N"
  shows "(\<forall>r. filter_convolve_stack data filters rot meth = Inr r \<longrightarrow>
            getitem r i = filter_convolve (slice0 data i) filters rot meth) \<and>
         (\<forall>e. filter_convolve_stack data filters rot meth = Inl e \<longrightarrow>
            (\<exists>j<N. filter_convolve (slice0 data j) filters rot meth = Inl e)) \<and>
         ((\<forall>j<N. \<exists>y. filter_convolve (slice0 data j) filters rot meth = Inr y) \<longrightarrow>
            (\<exists>r. filter_convolve_stack data filters rot meth = Inr r))"
proof -
  let ?g = "\<lambda>x. filter_convolve x filters rot meth"
  let ?xs = "map (slice0 data) [0..<N]"
  have it: "iter data = Inr ?xs" using assms(1) by (rule iter_Cons)
  have ok: "\<exists>r. np_array rs = Inr r \<and> getitem r i = ?g (slice0 data i)"
    if rs: "list_comp ?g ?xs = Inr rs" for rs
  proof -
    have len: "length rs = N" using list_comp_Inr_nth(1) [OF rs] by simp
    have el: "?g (slice0 data k) = Inr (rs ! k)" if "k < N" for k
      using list_comp_Inr_nth(2) [OF rs, of k] that by simp
    have ne: "rs \<noteq> []" using len assms(2) by auto
    have un: "shape y = shape (rs ! 0) \<and> length (flat y) = prod_list (shape (rs ! 0))"
      if "y \<in> set rs" for y
    proof -
      from that obtain k where k: "k < N" "y = rs ! k" using len by (auto simp: in_set_conv_nth)
      have "0 < N" using assms(2) by simp
      then have "shape (rs ! k) = shape (rs ! 0)"
        using filter_convolve_Inr_shape [OF el [OF k(1)] el [of 0]] by (simp add: shape_slice0)
      moreover have "wf_array (rs ! k)" using filter_convolve_Inr_wf [OF el [OF k(1)]] .
      ultimately show ?thesis using k(2) by (simp add: wf_array_def)
    qed
    let ?r = "\<lparr>shape = length rs # shape (rs ! 0), flat = concat (map flat rs)\<rparr>"
    have "np_array rs = Inr ?r"
      using un by (intro np_array_same_shape [OF ne]) blast
    moreover have "slice0 ?r i = rs ! i"
    proof (rule slice0_stacked)
      fix y assume "y \<in> set rs"
      then show "shape y = shape (rs ! 0) \<and> length (flat y) = prod_list (shape (rs ! 0))"
        by (rule un)
    next
      show "i < length rs" using len assms(2) by simp
    qed
    moreover have "getitem ?r i = Inr (slice0 ?r i)"
      using len assms(2) by (simp add: getitem_def)
    ultimately show ?thesis using el [OF assms(2)] by simp
  qed
  have a: "getitem r i = ?g (slice0 data i)" if "filter_convolve_stack data filters rot meth = Inr r" for r
  proof -
    from that obtain rs where rs: "list_comp ?g ?xs = Inr rs" and r: "np_array rs = Inr r"
      by (auto simp: filter_convolve_stack_def it split: sum.splits)
    with ok [OF rs] show ?thesis by auto
  qed
  have b: "\<exists>j<N. ?g (slice0 data j) = Inl e" if "filter_convolve_stack data filters rot meth = Inl e" for e
  proof (cases "list_comp ?g ?xs")
    case (Inl e')
    with that have "e' = e" by (simp add: filter_convolve_stack_def it)
    with Inl list_comp_Inl [of ?g ?xs e] show ?thesis by auto
  next
    case (Inr rs)
    with ok [OF Inr] that show ?thesis by (auto simp: filter_convolve_stack_def it)
  qed
  have c: "\<exists>r. filter_convolve_stack data filters rot meth = Inr r"
    if "\<forall>j<N. \<exists>y. ?g (slice0 data j) = Inr y"
  proof (cases "filter_convolve_stack data filters rot meth")
    case (Inl e)
    with b [OF Inl] that show ?thesis by auto
  next
    case (Inr r)
    then show ?thesis by blast
  qed
  show ?thesis
  proof (intro conjI allI impI)
    fix r assume "filter_convolve_stack data filters rot meth = Inr r"
    then show "getitem r i = filter_convolve (slice0 data i) filters rot meth" by (rule a)
  next
    fix e assume "filter_convolve_stack data filters rot meth = Inl e"
    then show "\<exists>j<N. filter_convolve (slice0 data j) filters rot meth = Inl e" by (rule b)
  next
    assume "\<forall>j<N. \<exists>y. filter_convolve (slice0 data j) filters rot meth = Inr y"
    then show "\<exists>r. filter_convolve_stack data filters rot meth = Inr r" by (rule c)
  qed
qed

theorem filter_convolve_stack_law_witness:
  "\<exists>r. filter_convolve_stack (arange [2, 2, 2] :: real ndarray) (arange [1, 2, 2]) False Scipy = Inr r \<and>
       getitem r 1 = filter_convolve (slice0 (arange [2, 2, 2] :: real ndarray) 1) (arange [1, 2, 2]) False Scipy"
proof -
  let ?st = "filter_convolve_stack (arange [2, 2, 2] :: real ndarray) (arange [1, 2, 2]) False Scipy"
  have "\<not> isl ?st" by code_simp
  then obtain r where r: "?st = Inr r" by (cases ?st) simp_all
  have sh: "shape (arange [2, 2, 2] :: real ndarray) = 2 # [2, 2]" by (simp add: shape_arange)
  have "getitem r 1 = filter_convolve (slice0 (arange [2, 2, 2] :: real ndarray) 1) (arange [1, 2, 2]) False Scipy"
    using filter_convolve_stack_law [OF sh, of 1 "arange [1, 2, 2]" False Scipy] r by simp
  with r show ?thesis by blast
qed

section \<open>The bounding box of a filter\<close>

text \<open>
  C10. For a 2D filter with a non-zero entry, \<open>_trim_filter\<close> returns the sub-array of
  the rows \<open>r0..r1\<close> and the columns \<open>c0..c1\<close>, where every non-zero entry lies in
  these rows and columns and each of the rows \<open>r0\<close>, \<open>r1\<close> and the columns \<open>c0\<close>,
  \<open>c1\<close> holds a non-zero entry: the minimal bounding box. For a filter without a
  non-zero entry the reduction over the empty index arrays raises \<open>ValueError\<close>.
\<close>

theorem trim_filter_bounding_box:
  assumes "wf_array a" and "shape a = [H, W]"
  shows "if \<exists>i<H. \<exists>j<W. at2 a i j \<noteq> 0
         then \<exists>r0 r1 c0 c1 r.
                r0 \<le> r1 \<and> r1 < H \<and> c0 \<le> c1 \<and> c1 < W \<and>
                (\<forall>i<H. \<forall>j<W. at2 a i j \<noteq> 0 \<longrightarrow> r0 \<le> i \<and> i \<le> r1 \<and> c0 \<le> j \<and> j \<le> c1) \<and>
                (\<exists>j<W. at2 a r0 j \<noteq> 0) \<and> (\<exists>j<W. at2 a r1 j \<noteq> 0) \<and>
                (\<exists>i<H. at2 a i c0 \<noteq> 0) \<and> (\<exists>i<H. at2 a i c1 \<noteq> 0) \<and>
                trim_filter a = Inr r \<and> wf_array r \<and>
                shape r = [r1 - r0 + 1, c1 - c0 + 1] \<and>
                (\<forall>i\<le>r1 - r0. \<forall>j\<le>c1 - c0. at2 r i j = at2 a (r0 + i) (c0 + j))
         else trim_filter a = Inl ValueError"
proof (cases "\<exists>i<H. \<exists>j<W. at2 a i j \<noteq> 0")
  case False
  let ?nz = "filter (\<lambda>p. flat a ! p \<noteq> 0) [0..<H * W]"
  have "set (map (\<lambda>p. p div W) ?nz) = {}"
    unfolding nonzero_rows [OF assms(2)] using False by auto
  then have "?nz = []" by simp
  then have "trim_filter a = Inl ValueError"
    unfolding trim_filter_2d [OF assms] Let_def by simp
  with False show ?thesis by (simp only: if_False)
next
  case True
  let ?nz = "filter (\<lambda>p. flat a ! p \<noteq> 0) [0..<H * W]"
  let ?rows = "map (\<lambda>p. p div W) ?nz" and ?cols = "map (\<lambda>p. p mod W) ?nz"
  define R where "R = {i. i < H \<and> (\<exists>j<W. at2 a i j \<noteq> 0)}"
  define C where "C = {j. j < W \<and> (\<exists>i<H. at2 a i j \<noteq> 0)}"
  have R: "set ?rows = R" unfolding R_def by (rule nonzero_rows [OF assms(2)])
  have C: "set ?cols = C" unfolding C_def by (rule nonzero_cols [OF assms(2)])
  have fR: "finite R" and fC: "finite C" unfolding R_def C_def by simp_all
  have neR: "R \<noteq> {}" and neC: "C \<noteq> {}" using True unfolding R_def C_def by auto
  define r0 r1 c0 c1 where "r0 = Min R" and "r1 = Max R" and "c0 = Min C" and "c1 = Max C"
  have r0: "r0 \<in> R" and r1: "r1 \<in> R" and c0: "c0 \<in> C" and c1: "c1 \<in> C"
    unfolding r0_def r1_def c0_def c1_def
    using Min_in [OF fR neR] Max_in [OF fR neR] Min_in [OF fC neC] Max_in [OF fC neC]
    by simp_all
  have Rb: "r0 \<le> i \<and> i \<le> r1" if "i \<in> R" for i
    unfolding r0_def r1_def using Min_le [OF fR that] Max_ge [OF fR that] by simp
  have Cb: "c0 \<le> j \<and> j \<le> c1" if "j \<in> C" for j
    unfolding c0_def c1_def using Min_le [OF fC that] Max_ge [OF fC that] by simp
  have ord: "r0 \<le> r1" "c0 \<le> c1" using Rb [OF r1] Cb [OF c1] by simp_all
  have lt: "r1 < H" "c1 < W" using r1 c1 unfolding R_def C_def by simp_all
  have box: "r0 \<le> i \<and> i \<le> r1 \<and> c0 \<le> j \<and> j \<le> c1" if "i < H" "j < W" "at2 a i j \<noteq> 0" for i j
  proof -
    have "i \<in> R" and "j \<in> C" using that unfolding R_def C_def by auto
    then show ?thesis using Rb Cb by simp
  qed
  have tight: "\<exists>j<W. at2 a r0 j \<noteq> 0" "\<exists>j<W. at2 a r1 j \<noteq> 0"
    "\<exists>i<H. at2 a i c0 \<noteq> 0" "\<exists>i<H. at2 a i c1 \<noteq> 0"
    using r0 r1 c0 c1 unfolding R_def C_def by simp_all
  define r where "r = slice2 a r0 (r1 + 1) c0 (c1 + 1)"
  have nz: "?nz \<noteq> []"
  proof
    assume "?nz = []"
    then have e: "set ?rows = {}" by simp
    have "R = {}" by (rule trans [OF R [symmetric] e])
    with neR show False by simp
  qed
  have tf: "trim_filter a = Inr r"
    unfolding trim_filter_2d [OF assms] Let_def r_def r0_def r1_def c0_def c1_def R C
    using nz by (simp only: if_not_P if_False)
  have req: "r = \<lparr>shape = [r1 - r0 + 1, c1 - c0 + 1],
            flat = concat (map (\<lambda>i. map (\<lambda>j. at2 a (r0 + i) (c0 + j)) [0..<c1 - c0 + 1])
                             [0..<r1 - r0 + 1])\<rparr>"
    unfolding r_def by (rule slice2_2d [OF assms ord(1) lt(1) ord(2) lt(2)])
  have sh: "shape r = [r1 - r0 + 1, c1 - c0 + 1]" by (simp add: req)
  have wf: "wf_array r"
    unfolding wf_array_def req by (simp add: concat_grid_length del: upt_Suc)
  have el: "at2 r i j = at2 a (r0 + i) (c0 + j)" if "i \<le> r1 - r0" "j \<le> c1 - c0" for i j
  proof -
    have "i < r1 - r0 + 1" "j < c1 - c0 + 1" using that by simp_all
    from concat_grid_nth [OF this, of "\<lambda>i j. at2 a (r0 + i) (c0 + j)"]
    show ?thesis by (simp add: at2_def req del: upt_Suc)
  qed
  have body: "r0 \<le> r1 \<and> r1 < H \<and> c0 \<le> c1 \<and> c1 < W \<and>
                (\<forall>i<H. \<forall>j<W. at2 a i j \<noteq> 0 \<longrightarrow> r0 \<le> i \<and> i \<le> r1 \<and> c0 \<le> j \<and> j \<le> c1) \<and>
                (\<exists>j<W. at2 a r0 j \<noteq> 0) \<and> (\<exists>j<W. at2 a r1 j \<noteq> 0) \<and>
                (\<exists>i<H. at2 a i c0 \<noteq> 0) \<and> (\<exists>i<H. at2 a i c1 \<noteq> 0) \<and>
                trim_filter a = Inr r \<and> wf_array r \<and>
                shape r = [r1 - r0 + 1, c1 - c0 + 1] \<and>
                (\<forall>i\<le>r1 - r0. \<forall>j\<le>c1 - c0. at2 r i j = at2 a (r0 + i) (c0 + j))"
  proof (intro conjI)
    show "r0 \<le> r1" by (rule ord(1))
    show "c0 \<le> c1" by (rule ord(2))
    show "r1 < H" by (rule lt(1))
    show "c1 < W" by (rule lt(2))
    show "\<forall>i<H. \<forall>j<W. at2 a i j \<noteq> 0 \<longrightarrow> r0 \<le> i \<and> i \<le> r1 \<and> c0 \<le> j \<and> j \<le> c1"
      using box by (intro allI impI)
    show "\<exists>j<W. at2 a r0 j \<noteq> 0" by (rule tight(1))
    show "\<exists>j<W. at2 a r1 j \<noteq> 0" by (rule tight(2))
    show "\<exists>i<H. at2 a i c0 \<noteq> 0" by (rule tight(3))
    show "\<exists>i<H. at2 a i c1 \<noteq> 0" by (rule tight(4))
    show "trim_filter a = Inr r" by (rule tf)
    show "wf_array r" by (rule wf)
    show "shape r = [r1 - r0 + 1, c1 - c0 + 1]" by (rule sh)
    show "\<forall>i\<le>r1 - r0. \<forall>j\<le>c1 - c0. at2 r i j = at2 a (r0 + i) (c0 + j)"
      using el by (intro allI impI)
  qed
  have "\<exists>r0 r1 c0 c1 r.
                r0 \<le> r1 \<and> r1 < H \<and> c0 \<le> c1 \<and> c1 < W \<and>
                (\<forall>i<H. \<forall>j<W. at2 a i j \<noteq> 0 \<longrightarrow> r0 \<le> i \<and> i \<le> r1 \<and> c0 \<le> j \<and> j \<le> c1) \<and>
                (\<exists>j<W. at2 a r0 j \<noteq> 0) \<and> (\<exists>j<W. at2 a r1 j \<noteq> 0) \<and>
                (\<exists>i<H. at2 a i c0 \<noteq> 0) \<and> (\<exists>i<H. at2 a i c1 \<noteq> 0) \<and>
                trim_filter a = Inr r \<and> wf_array r \<and>
                shape r = [r1 - r0 + 1, c1 - c0 + 1] \<and>
                (\<forall>i\<le>r1 - r0. \<forall>j\<le>c1 - c0. at2 r i j = at2 a (r0 + i) (c0 + j))"
    by (intro exI) (rule body)
  with True show ?thesis by (simp only: if_True)
qed

theorem trim_filter_bounding_box_witness:
  "(\<exists>r0 r1 c0 c1 r.
      r0 \<le> r1 \<and> r1 < 3 \<and> c0 \<le> c1 \<and> c1 < 4 \<and>
      (\<forall>i<3. \<forall>j<4. at2 \<lparr>shape = [3, 4], flat = [0, 0, 0, 0, 0, 1, 2, 0, 0, 0, 3, 0 :: real]\<rparr> i j \<noteq> 0
          \<longrightarrow> r0 \<le> i \<and> i \<le> r1 \<and> c0 \<le> j \<and> j \<le> c1) \<and>
      (\<exists>j<4. at2 \<lparr>shape = [3, 4], flat = [0, 0, 0, 0, 0, 1, 2, 0, 0, 0, 3, 0 :: real]\<rparr> r0 j \<noteq> 0) \<and>
      (\<exists>j<4. at2 \<lparr>shape = [3, 4], flat = [0, 0, 0, 0, 0, 1, 2, 0, 0, 0, 3, 0 :: real]\<rparr> r1 j \<noteq> 0) \<and>
      (\<exists>i<3. at2 \<lparr>shape = [3, 4], flat = [0, 0, 0, 0, 0, 1, 2, 0, 0, 0, 3, 0 :: real]\<rparr> i c0 \<noteq> 0) \<and>
      (\<exists>i<3. at2 \<lparr>shape = [3, 4], flat = [0, 0, 0, 0, 0, 1, 2, 0, 0, 0, 3, 0 :: real]\<rparr> i c1 \<noteq> 0) \<and>
      trim_filter \<lparr>shape = [3, 4], flat = [0, 0, 0, 0, 0, 1, 2, 0, 0, 0, 3, 0 :: real]\<rparr> = Inr r \<and>
      wf_array r \<and> shape r = [r1 - r0 + 1, c1 - c0 + 1] \<and>
      (\<forall>i\<le>r1 - r0. \<forall>j\<le>c1 - c0.
          at2 r i j = at2 \<lparr>shape = [3, 4], flat = [0, 0, 0, 0, 0, 1, 2, 0, 0, 0, 3, 0 :: real]\<rparr>
                        (r0 + i) (c0 + j))) \<and>
   trim_filter \<lparr>shape = [2, 2], flat = [0, 0, 0, 0 :: real]\<rparr> = Inl ValueError"
proof -
  let ?a = "\<lparr>shape = [3, 4], flat = [0, 0, 0, 0, 0, 1, 2, 0, 0, 0, 3, 0 :: real]\<rparr>"
  let ?z = "\<lparr>shape = [2, 2], flat = [0, 0, 0, 0 :: real]\<rparr>"
  have wa: "wf_array ?a" and sa: "shape ?a = [3, 4]" by (simp_all add: wf_array_def)
  have wz: "wf_array ?z" and sz: "shape ?z = [2, 2]" by (simp_all add: wf_array_def)
  have "at2 ?a 1 1 \<noteq> 0" by (simp add: at2_def)
  then have ca: "\<exists>i<3. \<exists>j<4. at2 ?a i j \<noteq> 0"
    by (intro exI [of _ 1] conjI) simp_all
  have "at2 ?z i j = 0" if "i < 2" "j < 2" for i j
  proof -
    from that have "i = 0 \<or> i = 1" and "j = 0 \<or> j = 1" by auto
    then show ?thesis by (auto simp: at2_def)
  qed
  then have cz: "\<not> (\<exists>i<2. \<exists>j<2. at2 ?z i j \<noteq> 0)" by blast
  from trim_filter_bounding_box [OF wa sa] ca trim_filter_bounding_box [OF wz sz] cz
  show ?thesis by (simp only: if_P if_not_P simp_thms)
qed

end
